theory Spec2Isabelle
  imports Complex_Main
begin

section \<open>The shared counter store\<close>

text \<open>
  The limiters of \<^verbatim>\<open>performanceOptimizer.ts\<close> keep all their state in a
  shared key-value store reached through \<^verbatim>\<open>redis()\<close>. Every round trip can
  fail; the failure is a value here, and the outcome of each round trip is an input of
  the model (\<open>Up\<close>: the command is executed and answered, \<open>Down\<close>: the call
  rejects and the store is left as it was).

  Timestamps (\<^verbatim>\<open>Date.now()\<close>), window lengths, weights and ceilings are
  integers. Token levels are JavaScript and Lua numbers, that is doubles: they are
  rationals here, and every arithmetic operation on them is followed by the rounding
  \<open>rnd\<close> of double arithmetic, which the token-bucket functions take as an
  argument.
\<close>

datatype store_error = StoreUnavailable

datatype link = Up | Down

text \<open>
  A fixed-window counter lives under the key
  \<^verbatim>\<open>${keyPrefix}:${key}:${window}\<close>; the three parts are kept apart as a
  triple. A counter holds its count and the time-to-live (seconds) set by
  \<^verbatim>\<open>EXPIRE\<close>, if any.
\<close>

type_synonym wkey = "string \<times> string \<times> int"

type_synonym counters = "wkey \<rightharpoonup> (int \<times> int option)"

definition incrby :: "link \<Rightarrow> wkey \<Rightarrow> int \<Rightarrow> counters \<Rightarrow> store_error + (int \<times> counters)" where
  "incrby l k w s =
     (case l of
        Down \<Rightarrow> Inl StoreUnavailable
      | Up \<Rightarrow>
          (case s k of
             None \<Rightarrow> Inr (w, s(k \<mapsto> (w, None)))
           | Some (c, t) \<Rightarrow> Inr (c + w, s(k \<mapsto> (c + w, t)))))"

definition decrby :: "link \<Rightarrow> wkey \<Rightarrow> int \<Rightarrow> counters \<Rightarrow> store_error + (int \<times> counters)" where
  "decrby l k w s =
     (case l of
        Down \<Rightarrow> Inl StoreUnavailable
      | Up \<Rightarrow>
          (case s k of
             None \<Rightarrow> Inr (- w, s(k \<mapsto> (- w, None)))
           | Some (c, t) \<Rightarrow> Inr (c - w, s(k \<mapsto> (c - w, t)))))"

definition expire :: "link \<Rightarrow> wkey \<Rightarrow> int \<Rightarrow> counters \<Rightarrow> store_error + counters" where
  "expire l k secs s =
     (case l of
        Down \<Rightarrow> Inl StoreUnavailable
      | Up \<Rightarrow>
          (case s k of
             None \<Rightarrow> Inr s
           | Some (c, t) \<Rightarrow> Inr (s(k \<mapsto> (c, Some secs)))))"

text \<open>The count a key stands at; a missing key counts from zero.\<close>

definition count_of :: "counters \<Rightarrow> wkey \<Rightarrow> int" where
  "count_of s k = (case s k of None \<Rightarrow> 0 | Some (c, t) \<Rightarrow> c)"

section \<open>The fixed-window limiter (class RateLimiter)\<close>

text \<open>
  \<^verbatim>\<open>RateLimitConfig\<close> as a limiter holds it: an optional field is an
  option, \<open>None\<close> standing for \<^verbatim>\<open>undefined\<close>. The function-valued
  fields (key generator, weight function, handler, skip predicate) act on the request
  only; the model takes the key and the weight they yield as inputs.
\<close>

record RateLimitConfig =
  windowMs :: int
  maxRequests :: int
  keyPrefix :: "string option"
  skipSuccessfulRequests :: "bool option"
  skipFailedRequests :: "bool option"

datatype config_error = PolicyMisconfiguration

text \<open>
  The object handed to a constructor. An optional property is absent, present with the
  value \<^verbatim>\<open>undefined\<close>, or present with a value. The constructor spreads
  the object over its defaults: a property that is present replaces the default, also
  when its value is \<^verbatim>\<open>undefined\<close>.
\<close>

datatype 'a property = Absent | Undefined | Given 'a

definition spread :: "'a \<Rightarrow> 'a property \<Rightarrow> 'a option" where
  "spread dflt p = (case p of Absent \<Rightarrow> Some dflt | Undefined \<Rightarrow> None | Given v \<Rightarrow> Some v)"

record RateLimitConfigObject =
  o_windowMs :: int
  o_maxRequests :: int
  o_keyPrefix :: "string property"
  o_skipSuccessfulRequests :: "bool property"
  o_skipFailedRequests :: "bool property"

text \<open>
  The constructor has no \<^verbatim>\<open>throw\<close> and no check of any field: its only
  branch returns the limiter, which is its configuration.
\<close>

definition RateLimiter_new :: "RateLimitConfigObject \<Rightarrow> config_error + RateLimitConfig" where
  "RateLimiter_new config =
     Inr \<lparr> windowMs = o_windowMs config,
           maxRequests = o_maxRequests config,
           keyPrefix = spread ''rate-limit'' (o_keyPrefix config),
           skipSuccessfulRequests = spread False (o_skipSuccessfulRequests config),
           skipFailedRequests = spread False (o_skipFailedRequests config) \<rparr>"

text \<open>A template literal prints a missing prefix as the text \<^verbatim>\<open>undefined\<close>.\<close>

definition prefix_of :: "RateLimitConfig \<Rightarrow> string" where
  "prefix_of cfg = (case keyPrefix cfg of None \<Rightarrow> ''undefined'' | Some p \<Rightarrow> p)"

definition flag :: "bool option \<Rightarrow> bool" where
  "flag b = (case b of None \<Rightarrow> False | Some v \<Rightarrow> v)"

record RateLimitResult =
  allowed :: bool
  remaining :: int
  resetAt :: int
  retryAfter :: "int option"

text \<open>\<^verbatim>\<open>Math.ceil(windowMs / 1000)\<close> on integers.\<close>

definition ceil_secs :: "int \<Rightarrow> int" where
  "ceil_secs ms = - ((- ms) div 1000)"

text \<open>
  \<^verbatim>\<open>RateLimiter.isAllowed(key, weight)\<close> at time \<open>now\<close>. The pair \<open>net\<close>
  gives the outcome of the two round trips (\<^verbatim>\<open>incrby\<close>, then
  \<^verbatim>\<open>expire\<close> when the counter was just created). The \<^verbatim>\<open>catch\<close>
  branch is the fail-open answer. \<^verbatim>\<open>Math.floor(now / windowMs)\<close> is integer
  division, which rounds down like \<open>div\<close>, for every window length but zero; for
  \<open>windowMs = 0\<close> the source computes with \<^verbatim>\<open>Infinity\<close> and
  \<^verbatim>\<open>NaN\<close>, which this integer model of the check does not cover: the
  statements below about the answers of a reachable store assume a positive window
  length, and the middleware with its headers, further down, treats a zero window
  apart.
\<close>

definition RateLimiter_isAllowed ::
  "RateLimitConfig \<Rightarrow> link \<times> link \<Rightarrow> string \<Rightarrow> int \<Rightarrow> int \<Rightarrow> counters
     \<Rightarrow> RateLimitResult \<times> counters" where
  "RateLimiter_isAllowed cfg net key weight now s =
     (let window = now div windowMs cfg;
          windowKey = (prefix_of cfg, key, window);
          failOpen = \<lparr> allowed = True, remaining = maxRequests cfg,
                       resetAt = now + windowMs cfg, retryAfter = None \<rparr>
      in case incrby (fst net) windowKey weight s of
           Inl e \<Rightarrow> (failOpen, s)
         | Inr (count, s1) \<Rightarrow>
             (case (if count = weight
                    then expire (snd net) windowKey (ceil_secs (windowMs cfg)) s1
                    else Inr s1) of
                Inl e \<Rightarrow> (failOpen, s1)
              | Inr s2 \<Rightarrow>
                  (let allowed = (count \<le> maxRequests cfg);
                       remaining = max 0 (maxRequests cfg - count);
                       resetAt = (window + 1) * windowMs cfg
                   in if \<not> allowed
                      then (\<lparr> allowed = allowed, remaining = remaining, resetAt = resetAt,
                              retryAfter = Some (resetAt - now) \<rparr>, s2)
                      else (\<lparr> allowed = allowed, remaining = remaining, resetAt = resetAt,
                              retryAfter = None \<rparr>, s2))))"

text \<open>Sequential checks of one key, each with its own time and weight, store reachable.\<close>

fun checks ::
  "RateLimitConfig \<Rightarrow> string \<Rightarrow> (int \<times> int) list \<Rightarrow> counters
     \<Rightarrow> RateLimitResult list \<times> counters" where
  "checks cfg key [] s = ([], s)"
| "checks cfg key ((now, w) # rest) s =
     (let (r, s1) = RateLimiter_isAllowed cfg (Up, Up) key w now s;
          (rs, s2) = checks cfg key rest s1
      in (r # rs, s2))"

text \<open>
  The middleware around \<^verbatim>\<open>isAllowed\<close>. A request that the skip predicate
  exempts goes on without touching the store; a rejected request is answered with 429;
  an admitted one goes on, and when one of the two refund toggles is set the response's
  \<^verbatim>\<open>end\<close> is wrapped.
\<close>

datatype admission = Skipped | Rejected RateLimitResult | Forwarded RateLimitResult bool

definition middleware ::
  "RateLimitConfig \<Rightarrow> link \<times> link \<Rightarrow> bool \<Rightarrow> string \<Rightarrow> int \<Rightarrow> int \<Rightarrow> counters
     \<Rightarrow> admission \<times> counters" where
  "middleware cfg net skip key weight now s =
     (if skip then (Skipped, s)
      else
        (let (result, s1) = RateLimiter_isAllowed cfg net key weight now s
         in if \<not> allowed result then (Rejected result, s1)
            else (Forwarded result
                    (flag (skipSuccessfulRequests cfg) \<or> flag (skipFailedRequests cfg)), s1)))"

text \<open>
  The wrapped \<^verbatim>\<open>res.end\<close>, run at time \<open>now\<close> when the downstream handler
  has answered with \<open>statusCode\<close>. The key of the counter it decrements is built from
  the time of the call to \<^verbatim>\<open>end\<close>. The promise of
  \<^verbatim>\<open>decrby\<close> is not awaited: a failed round trip changes nothing.
\<close>

definition res_end ::
  "RateLimitConfig \<Rightarrow> link \<Rightarrow> string \<Rightarrow> int \<Rightarrow> int \<Rightarrow> int \<Rightarrow> counters \<Rightarrow> counters" where
  "res_end cfg l key weight statusCode now s =
     (let shouldRefund =
            (statusCode < 400 \<and> flag (skipSuccessfulRequests cfg)) \<or>
            (statusCode \<ge> 400 \<and> flag (skipFailedRequests cfg))
      in if shouldRefund
         then (case decrby l (prefix_of cfg, key, now div windowMs cfg) weight s of
                 Inl e \<Rightarrow> s
               | Inr (c, s1) \<Rightarrow> s1)
         else s)"

text \<open>
  One request through the middleware: admitted at \<open>now\<close>, answered downstream with
  \<open>statusCode\<close> at \<open>endTime\<close>.
\<close>

definition handle_request ::
  "RateLimitConfig \<Rightarrow> string \<Rightarrow> int \<Rightarrow> int \<Rightarrow> int \<Rightarrow> int \<Rightarrow> counters
     \<Rightarrow> admission \<times> counters" where
  "handle_request cfg key weight now statusCode endTime s =
     (case middleware cfg (Up, Up) False key weight now s of
        (Forwarded r True, s1) \<Rightarrow> (Forwarded r True, res_end cfg Up key weight statusCode endTime s1)
      | (a, s1) \<Rightarrow> (a, s1))"

text \<open>
  The middleware with the headers it writes, over a reachable store. The headers are
  written before the decision is acted on, and the reset header is
  \<^verbatim>\<open>new Date(result.resetAt).toISOString()\<close>, which throws a
  \<^verbatim>\<open>RangeError\<close> when the time is \<^verbatim>\<open>NaN\<close> or beyond
  8640000000000000 ms on either side of the epoch. With \<open>windowMs = 0\<close> the
  quotient \<^verbatim>\<open>now / windowMs\<close> is an infinity or \<^verbatim>\<open>NaN\<close>, the
  counter is kept under a key that ends in that text, and
  \<^verbatim>\<open>(window + 1) * windowMs\<close> is \<^verbatim>\<open>NaN\<close>: the request ends
  in the error (the counter written before it is not represented).
\<close>

datatype js_error = RangeError

definition date_in_range :: "int \<Rightarrow> bool" where
  "date_in_range t = (\<bar>t\<bar> \<le> 8640000000000000)"

definition middleware_served ::
  "RateLimitConfig \<Rightarrow> bool \<Rightarrow> string \<Rightarrow> int \<Rightarrow> int \<Rightarrow> counters
     \<Rightarrow> js_error + (admission \<times> counters)" where
  "middleware_served cfg skip key weight now s =
     (if skip then Inr (Skipped, s)
      else if windowMs cfg = 0 then Inl RangeError
      else
        (case middleware cfg (Up, Up) False key weight now s of
           (Skipped, s1) \<Rightarrow> Inr (Skipped, s1)
         | (Rejected result, s1) \<Rightarrow>
             if date_in_range (resetAt result) then Inr (Rejected result, s1)
             else Inl RangeError
         | (Forwarded result wrapped, s1) \<Rightarrow>
             if date_in_range (resetAt result) then Inr (Forwarded result wrapped, s1)
             else Inl RangeError))"

section \<open>Double arithmetic\<close>

text \<open>
  A finite double is a rational \<open>m * 2 ^ e\<close> with \<open>\<bar>m\<bar> \<le> 2 ^ 53\<close>. Addition,
  subtraction, multiplication and division of doubles give the exact result rounded to
  a double; comparisons and \<^verbatim>\<open>min\<close> are exact. The rounding is an argument
  \<open>rnd\<close> of the functions that compute with token levels. What the statements
  assume of it is \<open>rounding\<close>: it is monotone and returns every double unchanged
  (exponents far inside the range of doubles suffice). Round-to-nearest is such a
  function; infinities and \<^verbatim>\<open>NaN\<close> (overflow, division by zero) are
  not values of this model.
\<close>

definition rounding :: "(rat \<Rightarrow> rat) \<Rightarrow> bool" where
  "rounding rnd =
     (mono rnd \<and>
      (\<forall>m e. \<bar>m\<bar> \<le> 2 ^ 53 \<and> - 1000 \<le> e \<and> e \<le> 900 \<longrightarrow>
         rnd (of_int m * 2 powi e) = of_int m * 2 powi e))"

text \<open>
  The rounding that changes nothing. It agrees with double arithmetic on every
  computation whose operands and results are all doubles; the concrete runs below are
  chosen so.
\<close>

definition exact :: "rat \<Rightarrow> rat" where
  "exact x = x"

section \<open>The process-local token bucket (class TokenBucket)\<close>

record TokenBucket =
  tokens :: rat
  lastRefill :: int
  capacity :: rat
  refillRate :: rat

definition TokenBucket_new :: "rat \<Rightarrow> rat \<Rightarrow> int \<Rightarrow> TokenBucket" where
  "TokenBucket_new cap rate now =
     \<lparr> tokens = cap, lastRefill = now, capacity = cap, refillRate = rate \<rparr>"

definition refill :: "(rat \<Rightarrow> rat) \<Rightarrow> int \<Rightarrow> TokenBucket \<Rightarrow> TokenBucket" where
  "refill rnd now b =
     (let timePassed = now - lastRefill b;
          tokensToAdd = rnd (rnd (of_int timePassed / 1000) * refillRate b)
      in b \<lparr> tokens := min (capacity b) (rnd (tokens b + tokensToAdd)), lastRefill := now \<rparr>)"

definition consume :: "(rat \<Rightarrow> rat) \<Rightarrow> rat \<Rightarrow> int \<Rightarrow> TokenBucket \<Rightarrow> bool \<times> TokenBucket" where
  "consume rnd n now b =
     (let b1 = refill rnd now b
      in if tokens b1 \<ge> n then (True, b1 \<lparr> tokens := rnd (tokens b1 - n) \<rparr>)
         else (False, b1))"

definition getTokens :: "(rat \<Rightarrow> rat) \<Rightarrow> int \<Rightarrow> TokenBucket \<Rightarrow> rat \<times> TokenBucket" where
  "getTokens rnd now b = (let b1 = refill rnd now b in (tokens b1, b1))"

section \<open>The distributed token-bucket throttler (class DistributedThrottler)\<close>

record ThrottleConfig =
  burstLimit :: rat
  sustainedLimit :: rat
  th_windowMs :: int
  th_keyPrefix :: "string option"

record ThrottleConfigObject =
  o_burstLimit :: rat
  o_sustainedLimit :: rat
  o_th_windowMs :: int
  o_th_keyPrefix :: "string property"

definition DistributedThrottler_new :: "ThrottleConfigObject \<Rightarrow> config_error + ThrottleConfig" where
  "DistributedThrottler_new config =
     Inr \<lparr> burstLimit = o_burstLimit config,
           sustainedLimit = o_sustainedLimit config,
           th_windowMs = o_th_windowMs config,
           th_keyPrefix = spread ''throttle'' (o_th_keyPrefix config) \<rparr>"

definition th_prefix_of :: "ThrottleConfig \<Rightarrow> string" where
  "th_prefix_of cfg = (case th_keyPrefix cfg of None \<Rightarrow> ''undefined'' | Some p \<Rightarrow> p)"

text \<open>
  A bucket is a hash under \<^verbatim>\<open>${keyPrefix}:${key}\<close> with the fields
  \<^verbatim>\<open>tokens\<close> and \<^verbatim>\<open>last_refill\<close>, always written together, and the
  time-to-live (seconds) set by \<^verbatim>\<open>EXPIRE\<close>, if any.
\<close>

type_synonym bkey = "string \<times> string"

type_synonym buckets = "bkey \<rightharpoonup> (rat \<times> int \<times> int option)"

text \<open>
  \<^verbatim>\<open>HMSET key tokens t last_refill now\<close> keeps the time-to-live of an
  existing key. \<^verbatim>\<open>EXPIRE key secs\<close> refuses a number of seconds that is
  not an integer; it deletes the key when the number is not positive.
\<close>

datatype script_error = NotAnInteger

definition is_integer :: "rat \<Rightarrow> bool" where
  "is_integer q = (of_int \<lfloor>q\<rfloor> = q)"

definition hmset :: "bkey \<Rightarrow> rat \<Rightarrow> int \<Rightarrow> buckets \<Rightarrow> buckets" where
  "hmset key level now s =
     s(key \<mapsto> (level, now, case s key of None \<Rightarrow> None | Some (t, l, e) \<Rightarrow> e))"

definition script_expire :: "bkey \<Rightarrow> rat \<Rightarrow> buckets \<Rightarrow> script_error + buckets" where
  "script_expire key secs s =
     (if \<not> is_integer secs then Inl NotAnInteger
      else if secs \<le> 0 then Inr (s(key := None))
      else
        (case s key of
           None \<Rightarrow> Inr s
         | Some (t, l, e) \<Rightarrow> Inr (s(key \<mapsto> (t, l, Some \<lfloor>secs\<rfloor>)))))"

text \<open>
  The Lua script, which the store runs as one step. A command that fails aborts the
  script; what the script wrote before stays written. The script answers
  \<^verbatim>\<open>{1, new_tokens}\<close> or \<^verbatim>\<open>{0, new_tokens}\<close>.
\<close>

definition token_bucket_script ::
  "(rat \<Rightarrow> rat) \<Rightarrow> bkey \<Rightarrow> rat \<Rightarrow> rat \<Rightarrow> int \<Rightarrow> rat \<Rightarrow> int \<Rightarrow> buckets
     \<Rightarrow> (script_error + (int \<times> rat)) \<times> buckets" where
  "token_bucket_script rnd key burst_limit sustained_limit window_ms cost now s =
     (let tokens = (case s key of None \<Rightarrow> burst_limit | Some (t, l, e) \<Rightarrow> t);
          last_refill = (case s key of None \<Rightarrow> now | Some (t, l, e) \<Rightarrow> l);
          time_passed = now - last_refill;
          refill_rate = rnd (sustained_limit / rnd (of_int window_ms / 1000));
          new_tokens =
            min burst_limit (rnd (tokens + rnd (rnd (of_int time_passed / 1000) * refill_rate)))
      in if new_tokens \<ge> cost
         then
           (let spent = rnd (new_tokens - cost);
                s1 = hmset key spent now s
            in case script_expire key (rnd (of_int window_ms / 1000)) s1 of
                 Inl e \<Rightarrow> (Inl e, s1)
               | Inr s2 \<Rightarrow> (Inr (1, spent), s2))
         else
           (let s1 = hmset key new_tokens now s
            in case script_expire key (rnd (of_int window_ms / 1000)) s1 of
                 Inl e \<Rightarrow> (Inl e, s1)
               | Inr s2 \<Rightarrow> (Inr (0, new_tokens), s2)))"

text \<open>
  \<^verbatim>\<open>redis().eval(...)\<close>. The store converts every number of the script's
  answer to an integer, dropping its fraction, before it replies. The call rejects
  when the store is not reached and when the script aborts.
\<close>

definition reply_integer :: "rat \<Rightarrow> int" where
  "reply_integer x = (if 0 \<le> x then \<lfloor>x\<rfloor> else \<lceil>x\<rceil>)"

datatype eval_error = Unreachable | ScriptAborted script_error

definition eval_script ::
  "link \<Rightarrow> (rat \<Rightarrow> rat) \<Rightarrow> bkey \<Rightarrow> rat \<Rightarrow> rat \<Rightarrow> int \<Rightarrow> rat \<Rightarrow> int \<Rightarrow> buckets
     \<Rightarrow> (eval_error + (int \<times> int)) \<times> buckets" where
  "eval_script l rnd key burst_limit sustained_limit window_ms cost now s =
     (case l of
        Down \<Rightarrow> (Inl Unreachable, s)
      | Up \<Rightarrow>
          (case token_bucket_script rnd key burst_limit sustained_limit window_ms cost now s of
             (Inl e, s1) \<Rightarrow> (Inl (ScriptAborted e), s1)
           | (Inr (a, t), s1) \<Rightarrow> (Inr (a, reply_integer t), s1)))"

record ThrottleResult =
  th_allowed :: bool
  tokensRemaining :: rat
  th_retryAfter :: "rat option"

definition DistributedThrottler_isAllowed ::
  "(rat \<Rightarrow> rat) \<Rightarrow> ThrottleConfig \<Rightarrow> link \<Rightarrow> string \<Rightarrow> rat \<Rightarrow> int \<Rightarrow> buckets
     \<Rightarrow> ThrottleResult \<times> buckets" where
  "DistributedThrottler_isAllowed rnd cfg l key cost now s =
     (case eval_script l rnd (th_prefix_of cfg, key) (burstLimit cfg) (sustainedLimit cfg)
             (th_windowMs cfg) cost now s of
        (Inl e, s1) \<Rightarrow>
          (\<lparr> th_allowed = True, tokensRemaining = burstLimit cfg, th_retryAfter = None \<rparr>, s1)
      | (Inr (flag_allowed, tokens_left), s1) \<Rightarrow>
          (if flag_allowed = 0
           then
             (let refillRate = rnd (sustainedLimit cfg / rnd (of_int (th_windowMs cfg) / 1000));
                  retryAfter = rnd (rnd (rnd (cost - of_int tokens_left) / refillRate) * 1000)
              in (\<lparr> th_allowed = False, tokensRemaining = of_int tokens_left,
                     th_retryAfter = Some retryAfter \<rparr>, s1))
           else (\<lparr> th_allowed = True, tokensRemaining = of_int tokens_left,
                   th_retryAfter = None \<rparr>, s1)))"

text \<open>Sequential checks of one key, each with its own time and cost, store reachable.\<close>

fun throttle_checks ::
  "(rat \<Rightarrow> rat) \<Rightarrow> ThrottleConfig \<Rightarrow> string \<Rightarrow> (int \<times> rat) list \<Rightarrow> buckets
     \<Rightarrow> ThrottleResult list \<times> buckets" where
  "throttle_checks rnd cfg key [] s = ([], s)"
| "throttle_checks rnd cfg key ((now, cost) # rest) s =
     (let (r, s1) = DistributedThrottler_isAllowed rnd cfg Up key cost now s;
          (rs, s2) = throttle_checks rnd cfg key rest s1
      in (r # rs, s2))"

text \<open>
  What happens to the buckets over time: checks by any caller, and the store dropping a
  key whose time-to-live has run out.
\<close>

datatype bucket_op = Check link string rat int | Evict string

fun run_ops :: "(rat \<Rightarrow> rat) \<Rightarrow> ThrottleConfig \<Rightarrow> bucket_op list \<Rightarrow> buckets \<Rightarrow> buckets" where
  "run_ops rnd cfg [] s = s"
| "run_ops rnd cfg (Check l key cost now # ops) s =
     run_ops rnd cfg ops (snd (DistributedThrottler_isAllowed rnd cfg l key cost now s))"
| "run_ops rnd cfg (Evict key # ops) s = run_ops rnd cfg ops (s((th_prefix_of cfg, key) := None))"

section \<open>The adaptive limiter (class AdaptiveRateLimiter)\<close>

record PerformanceMetric =
  total :: int
  errors :: int
  totalResponseTime :: rat
  lastUpdate :: int

record AdaptiveRateLimiter =
  baseConfig :: RateLimitConfig
  performanceMetrics :: "string \<rightharpoonup> PerformanceMetric"

definition AdaptiveRateLimiter_new :: "RateLimitConfig \<Rightarrow> AdaptiveRateLimiter" where
  "AdaptiveRateLimiter_new base = \<lparr> baseConfig = base, performanceMetrics = Map.empty \<rparr>"

text \<open>
  A quotient of two JavaScript numbers: division by zero does not fail, it yields an
  infinity or \<^verbatim>\<open>NaN\<close>, and every comparison with \<^verbatim>\<open>NaN\<close> is false.
\<close>

datatype quotient = Finite rat | PosInfinity | NegInfinity | NaN

definition js_div :: "rat \<Rightarrow> rat \<Rightarrow> quotient" where
  "js_div a b =
     (if b \<noteq> 0 then Finite (a / b)
      else if 0 < a then PosInfinity
      else if a < 0 then NegInfinity
      else NaN)"

fun js_gt :: "quotient \<Rightarrow> rat \<Rightarrow> bool" where
  "js_gt (Finite x) c = (x > c)"
| "js_gt PosInfinity c = True"
| "js_gt NegInfinity c = False"
| "js_gt NaN c = False"

fun js_lt :: "quotient \<Rightarrow> rat \<Rightarrow> bool" where
  "js_lt (Finite x) c = (x < c)"
| "js_lt PosInfinity c = False"
| "js_lt NegInfinity c = True"
| "js_lt NaN c = False"

definition getDynamicLimit :: "AdaptiveRateLimiter \<Rightarrow> string \<Rightarrow> int" where
  "getDynamicLimit a key =
     (case performanceMetrics a key of
        None \<Rightarrow> maxRequests (baseConfig a)
      | Some metrics \<Rightarrow>
          (let errorRate = js_div (of_int (errors metrics)) (of_int (total metrics));
               avgResponseTime = js_div (totalResponseTime metrics) (of_int (total metrics));
               limit = maxRequests (baseConfig a);
               limit1 =
                 (if js_gt errorRate (1 / 10) then \<lfloor>of_int limit * (1 / 2 :: rat)\<rfloor>
                  else if js_gt errorRate (1 / 20) then \<lfloor>of_int limit * (3 / 4 :: rat)\<rfloor>
                  else limit);
               limit2 =
                 (if js_lt errorRate (1 / 100) \<and> js_lt avgResponseTime 100
                  then \<lfloor>of_int limit1 * (3 / 2 :: rat)\<rfloor>
                  else limit1)
           in limit2))"

definition recordMetric ::
  "string \<Rightarrow> rat \<Rightarrow> int \<Rightarrow> int \<Rightarrow> AdaptiveRateLimiter \<Rightarrow> AdaptiveRateLimiter" where
  "recordMetric key responseTime statusCode now a =
     (let m0 = (case performanceMetrics a key of
                  None \<Rightarrow> \<lparr> total = 0, errors = 0, totalResponseTime = 0, lastUpdate = now \<rparr>
                | Some m \<Rightarrow> m);
          m1 = m0 \<lparr> total := total m0 + 1,
                    totalResponseTime := totalResponseTime m0 + responseTime \<rparr>;
          m2 = (if statusCode \<ge> 400 then m1 \<lparr> errors := errors m1 + 1 \<rparr> else m1)
      in a \<lparr> performanceMetrics := (performanceMetrics a)(key \<mapsto> m2 \<lparr> lastUpdate := now \<rparr>) \<rparr>)"

text \<open>The body of the one-minute timer: profiles untouched for over an hour are deleted.\<close>

definition clean_old_metrics :: "int \<Rightarrow> AdaptiveRateLimiter \<Rightarrow> AdaptiveRateLimiter" where
  "clean_old_metrics now a =
     a \<lparr> performanceMetrics :=
           (\<lambda>key. case performanceMetrics a key of
                    None \<Rightarrow> None
                  | Some metrics \<Rightarrow>
                      if now - lastUpdate metrics > 3600000 then None else Some metrics) \<rparr>"

section \<open>The sliding-window limiter (class SlidingWindowRateLimiter)\<close>

text \<open>
  A sorted set maps members to scores. The member of a request is
  \<^verbatim>\<open>${now}:${hex}\<close>: its time and four random bytes, kept apart as a pair; the
  random bytes are an input of the model, and two requests can draw the same.
\<close>

type_synonym member = "int \<times> string"

type_synonym zset = "(member \<times> int) list"

type_synonym zsets = "string \<rightharpoonup> (zset \<times> int option)"

text \<open>\<^verbatim>\<open>ZREMRANGEBYSCORE key -inf max\<close>: both bounds are inclusive.\<close>

definition zremrangebyscore :: "zset \<Rightarrow> int \<Rightarrow> zset" where
  "zremrangebyscore z mx = filter (\<lambda>(m, sc). \<not> sc \<le> mx) z"

definition zadd :: "zset \<Rightarrow> int \<Rightarrow> member \<Rightarrow> zset" where
  "zadd z sc m = (m, sc) # filter (\<lambda>(m', sc'). m' \<noteq> m) z"

definition zcount :: "zset \<Rightarrow> int \<Rightarrow> int \<Rightarrow> int" where
  "zcount z lo hi = int (length (filter (\<lambda>(m, sc). lo \<le> sc \<and> sc \<le> hi) z))"

definition zset_of :: "zsets \<Rightarrow> string \<Rightarrow> zset" where
  "zset_of s k = (case s k of None \<Rightarrow> [] | Some (z, t) \<Rightarrow> z)"

definition ttl_of :: "zsets \<Rightarrow> string \<Rightarrow> int option" where
  "ttl_of s k = (case s k of None \<Rightarrow> None | Some (z, t) \<Rightarrow> t)"

text \<open>
  The four commands on the store. A command with outcome \<open>Down\<close> fails and changes
  nothing. A sorted set that becomes empty is deleted with its time-to-live;
  \<^verbatim>\<open>EXPIRE\<close> with a number of seconds that is not positive deletes the key.
\<close>

definition put_zset :: "string \<Rightarrow> zset \<Rightarrow> int option \<Rightarrow> zsets \<Rightarrow> zsets" where
  "put_zset k z t s = (if z = [] then s(k := None) else s(k \<mapsto> (z, t)))"

definition cmd_zremrangebyscore :: "link \<Rightarrow> string \<Rightarrow> int \<Rightarrow> zsets \<Rightarrow> zsets" where
  "cmd_zremrangebyscore l k mx s =
     (case l of
        Down \<Rightarrow> s
      | Up \<Rightarrow> put_zset k (zremrangebyscore (zset_of s k) mx) (ttl_of s k) s)"

definition cmd_zadd :: "link \<Rightarrow> string \<Rightarrow> int \<Rightarrow> member \<Rightarrow> zsets \<Rightarrow> zsets" where
  "cmd_zadd l k sc m s =
     (case l of
        Down \<Rightarrow> s
      | Up \<Rightarrow> put_zset k (zadd (zset_of s k) sc m) (ttl_of s k) s)"

definition cmd_zcount :: "link \<Rightarrow> string \<Rightarrow> int \<Rightarrow> int \<Rightarrow> zsets \<Rightarrow> int option" where
  "cmd_zcount l k lo hi s =
     (case l of
        Down \<Rightarrow> None
      | Up \<Rightarrow> Some (zcount (zset_of s k) lo hi))"

definition cmd_expire :: "link \<Rightarrow> string \<Rightarrow> int \<Rightarrow> zsets \<Rightarrow> zsets" where
  "cmd_expire l k secs s =
     (case l of
        Down \<Rightarrow> s
      | Up \<Rightarrow>
          (case s k of
             None \<Rightarrow> s
           | Some (z, t) \<Rightarrow> if secs \<le> 0 then s(k := None) else s(k \<mapsto> (z, Some secs))))"

text \<open>
  \<^verbatim>\<open>redis().pipeline() ... exec()\<close>. The pipeline is not a transaction: the
  store runs the four commands in order, and commands of other callers can run between
  them; \<open>others\<close> gives what those do to the store after the first, the second and
  the third command. \<^verbatim>\<open>exec()\<close> either rejects, or resolves with one
  answer for each command, an error for a command that failed. Of the answers the
  caller reads the third one, the count.
\<close>

datatype exec_outcome = ExecRejects | ExecResolves link link link link

type_synonym others = "(zsets \<Rightarrow> zsets) \<times> (zsets \<Rightarrow> zsets) \<times> (zsets \<Rightarrow> zsets)"

definition alone :: others where
  "alone = ((\<lambda>s. s), (\<lambda>s. s), (\<lambda>s. s))"

definition all_up :: exec_outcome where
  "all_up = ExecResolves Up Up Up Up"

definition pipeline_exec ::
  "exec_outcome \<Rightarrow> others \<Rightarrow> string \<Rightarrow> int \<Rightarrow> int \<Rightarrow> member \<Rightarrow> int \<Rightarrow> zsets
     \<Rightarrow> (store_error + int option) \<times> zsets" where
  "pipeline_exec outcome between redisKey windowStart now m secs s =
     (case outcome of
        ExecRejects \<Rightarrow> (Inl StoreUnavailable, s)
      | ExecResolves l1 l2 l3 l4 \<Rightarrow>
          (case between of
             (after1, after2, after3) \<Rightarrow>
               (let s1 = cmd_zremrangebyscore l1 redisKey windowStart s;
                    s2 = cmd_zadd l2 redisKey now m (after1 s1);
                    s3 = after2 s2;
                    count = cmd_zcount l3 redisKey windowStart now s3;
                    s4 = cmd_expire l4 redisKey secs (after3 s3)
                in (Inr count, s4))))"

text \<open>The key of a caller's sorted set: \<^verbatim>\<open>sliding:${key}\<close>.\<close>

definition sliding_key :: "string \<Rightarrow> string" where
  "sliding_key key = ''sliding:'' @ key"

text \<open>
  \<^verbatim>\<open>results?.[2]?.[1] as number || 0\<close>: the answer of a failed count is
  \<^verbatim>\<open>undefined\<close>, which counts as 0.
\<close>

definition SlidingWindow_isAllowed ::
  "RateLimitConfig \<Rightarrow> exec_outcome \<Rightarrow> others \<Rightarrow> string \<Rightarrow> string \<Rightarrow> int \<Rightarrow> zsets
     \<Rightarrow> bool \<times> zsets" where
  "SlidingWindow_isAllowed cfg outcome between key nonce now s =
     (let redisKey = sliding_key key;
          windowStart = now - windowMs cfg
      in case pipeline_exec outcome between redisKey windowStart now (now, nonce)
                (ceil_secs (windowMs cfg)) s of
           (Inl e, s1) \<Rightarrow> (True, s1)
         | (Inr answer, s1) \<Rightarrow>
             (let count = (case answer of None \<Rightarrow> 0 | Some c \<Rightarrow> if c = 0 then 0 else c)
              in (count \<le> maxRequests cfg, s1)))"

text \<open>
  Sequential checks of one key, every command executed and no other caller in between;
  each request comes with its time and random bytes.
\<close>

fun sliding_checks ::
  "RateLimitConfig \<Rightarrow> string \<Rightarrow> member list \<Rightarrow> zsets \<Rightarrow> bool list \<times> zsets" where
  "sliding_checks cfg key [] s = ([], s)"
| "sliding_checks cfg key ((now, nonce) # rest) s =
     (let (r, s1) = SlidingWindow_isAllowed cfg all_up alone key nonce now s;
          (rs, s2) = sliding_checks cfg key rest s1
      in (r # rs, s2))"

section \<open>Notions used in the statements\<close>

text \<open>
  The answer of a fixed-window check that leaves the counter at \<open>count\<close>, written
  out once so that statements about several checks can name it.
\<close>

definition decision :: "RateLimitConfig \<Rightarrow> int \<Rightarrow> int \<Rightarrow> RateLimitResult" where
  "decision cfg now count =
     (if count \<le> maxRequests cfg
      then \<lparr> allowed = True, remaining = max 0 (maxRequests cfg - count),
             resetAt = (now div windowMs cfg + 1) * windowMs cfg, retryAfter = None \<rparr>
      else \<lparr> allowed = False, remaining = max 0 (maxRequests cfg - count),
             resetAt = (now div windowMs cfg + 1) * windowMs cfg,
             retryAfter = Some ((now div windowMs cfg + 1) * windowMs cfg - now) \<rparr>)"

text \<open>The policy of the scenario: five requests a minute.\<close>

definition policy5 :: RateLimitConfig where
  "policy5 = \<lparr> windowMs = 60000, maxRequests = 5, keyPrefix = Some ''api'',
      skipSuccessfulRequests = Some False, skipFailedRequests = Some False \<rparr>"

definition five_calls :: "(int \<times> int) list" where
  "five_calls = [(60000, 1), (60010, 1), (70000, 1), (90000, 1), (119999, 1)]"

text \<open>
  The quantities of a throttler check: the seconds of the window and the refill rate
  (tokens a second) as the script computes them, and the level the stored tokens are
  refilled to at time \<open>now\<close>, before the cost is compared; a missing bucket counts
  as full and as refilled now.
\<close>

definition window_secs :: "(rat \<Rightarrow> rat) \<Rightarrow> ThrottleConfig \<Rightarrow> rat" where
  "window_secs rnd cfg = rnd (of_int (th_windowMs cfg) / 1000)"

definition refill_rate :: "(rat \<Rightarrow> rat) \<Rightarrow> ThrottleConfig \<Rightarrow> rat" where
  "refill_rate rnd cfg = rnd (sustainedLimit cfg / window_secs rnd cfg)"

definition refilled_level ::
  "(rat \<Rightarrow> rat) \<Rightarrow> ThrottleConfig \<Rightarrow> string \<Rightarrow> int \<Rightarrow> buckets \<Rightarrow> rat" where
  "refilled_level rnd cfg key now s =
     (let tokens = (case s (th_prefix_of cfg, key) of
                      None \<Rightarrow> burstLimit cfg | Some (t, l, e) \<Rightarrow> t);
          last_refill = (case s (th_prefix_of cfg, key) of None \<Rightarrow> now | Some (t, l, e) \<Rightarrow> l);
          elapsed = rnd (of_int (now - last_refill) / 1000)
      in min (burstLimit cfg) (rnd (tokens + rnd (elapsed * refill_rate rnd cfg))))"


text \<open>
  Three throttlers: a burst of 10 refilled at one token a second; a burst of 1
  refilled at one token a second, over a window of a minute; a throttler whose window
  is one and a half seconds. And the state of the key \<open>''k''\<close> of the first,
  drained at time 0.
\<close>

definition per_second :: ThrottleConfig where
  "per_second = \<lparr> burstLimit = 10, sustainedLimit = 1, th_windowMs = 1000,
      th_keyPrefix = Some ''throttle'' \<rparr>"

definition skewed :: ThrottleConfig where
  "skewed = \<lparr> burstLimit = 1, sustainedLimit = 60, th_windowMs = 60000,
      th_keyPrefix = Some ''throttle'' \<rparr>"

definition fractional_window :: ThrottleConfig where
  "fractional_window = \<lparr> burstLimit = 10, sustainedLimit = 3, th_windowMs = 1500,
      th_keyPrefix = Some ''throttle'' \<rparr>"

definition drained :: buckets where
  "drained = Map.empty((''throttle'', ''k'') \<mapsto> (0, 0, Some 1))"

text \<open>
  A run of bucket operations is timely from a state when every check that reaches the
  store carries a cost that is not negative and a time at or after the time the bucket
  of its key was last refilled, in the state the run has reached.
\<close>

fun timely :: "(rat \<Rightarrow> rat) \<Rightarrow> ThrottleConfig \<Rightarrow> bucket_op list \<Rightarrow> buckets \<Rightarrow> bool" where
  "timely rnd cfg [] s = True"
| "timely rnd cfg (Check l key cost now # ops) s =
     ((l = Up \<longrightarrow> 0 \<le> cost \<and>
         (case s (th_prefix_of cfg, key) of None \<Rightarrow> True | Some (t, lr, e) \<Rightarrow> lr \<le> now)) \<and>
      timely rnd cfg ops (snd (DistributedThrottler_isAllowed rnd cfg l key cost now s)))"
| "timely rnd cfg (Evict key # ops) s = timely rnd cfg ops (s((th_prefix_of cfg, key) := None))"

text \<open>Every stored token level lies between zero and the burst limit \<open>B\<close>.\<close>

definition within_burst :: "rat \<Rightarrow> buckets \<Rightarrow> bool" where
  "within_burst B s = (\<forall>k tok lr e. s k = Some (tok, lr, e) \<longrightarrow> 0 \<le> tok \<and> tok \<le> B)"

text \<open>
  Claim C4 as it is worded, for comparison with \<open>SlidingWindow_isAllowed\<close>: purge
  the entries older than \<open>now - W\<close>, insert the entry of the request, count the
  entries in \<open>[now - W, now]\<close>, allow when the count is at most the ceiling.
\<close>

definition spec_sliding_check ::
  "RateLimitConfig \<Rightarrow> string \<Rightarrow> string \<Rightarrow> int \<Rightarrow> zsets \<Rightarrow> bool \<times> zsets" where
  "spec_sliding_check cfg key nonce now s =
     (let redisKey = sliding_key key;
          purged = filter (\<lambda>(m, sc). \<not> sc < now - windowMs cfg) (zset_of s redisKey);
          inserted = zadd purged now (now, nonce);
          count = zcount inserted (now - windowMs cfg) now
      in (count \<le> maxRequests cfg,
          s(redisKey \<mapsto> (inserted, Some (ceil_secs (windowMs cfg))))))"

text \<open>
  Sliding-window policies over one second, with ceilings 1, 2 and -1.
\<close>

definition one_per_second :: RateLimitConfig where
  "one_per_second = \<lparr> windowMs = 1000, maxRequests = 1, keyPrefix = None,
      skipSuccessfulRequests = None, skipFailedRequests = None \<rparr>"

definition two_per_second :: RateLimitConfig where
  "two_per_second = \<lparr> windowMs = 1000, maxRequests = 2, keyPrefix = None,
      skipSuccessfulRequests = None, skipFailedRequests = None \<rparr>"

definition negative_ceiling :: RateLimitConfig where
  "negative_ceiling = \<lparr> windowMs = 1000, maxRequests = - 1, keyPrefix = None,
      skipSuccessfulRequests = None, skipFailedRequests = None \<rparr>"

text \<open>
  A second caller's whole check of the key \<open>''k''\<close> at time 5, as something that
  happens to the store in the middle of a first caller's pipeline.
\<close>

definition second_caller :: "zsets \<Rightarrow> bool \<times> zsets" where
  "second_caller s = SlidingWindow_isAllowed one_per_second all_up alone ''k'' ''bb'' 5 s"

text \<open>
  Claim C6 as it is worded, for comparison with \<open>getDynamicLimit\<close>: the base
  ceiling times 0.5, 0.75 or 1.5, or unchanged, then clamped to a configured range
  \<open>[lo, hi]\<close>.
\<close>

definition spec_dynamic_ceiling :: "rat \<Rightarrow> rat \<Rightarrow> int \<Rightarrow> PerformanceMetric \<Rightarrow> rat" where
  "spec_dynamic_ceiling lo hi base m =
     (let errorRate = (of_int (errors m) / of_int (total m) :: rat);
          avgLatency = totalResponseTime m / of_int (total m);
          scaled =
            (if errorRate > 1 / 10 then of_int base * (1 / 2)
             else if errorRate > 1 / 20 then of_int base * (3 / 4)
             else if errorRate < 1 / 100 \<and> avgLatency < 100 then of_int base * (3 / 2)
             else of_int base)
      in max lo (min hi scaled))"

text \<open>
  An adaptive limiter of base ceiling 5 that has recorded one failed request of the
  caller \<open>''bad''\<close> and one fast successful request of the caller \<open>''good''\<close>,
  and the two profiles it then holds.
\<close>

definition base5 :: RateLimitConfig where
  "base5 = \<lparr> windowMs = 60000, maxRequests = 5, keyPrefix = None,
      skipSuccessfulRequests = None, skipFailedRequests = None \<rparr>"

definition profiles5 :: AdaptiveRateLimiter where
  "profiles5 =
     recordMetric ''good'' 50 200 0
       (recordMetric ''bad'' 50 500 0 (AdaptiveRateLimiter_new base5))"

definition bad_profile :: PerformanceMetric where
  "bad_profile = \<lparr> total = 1, errors = 1, totalResponseTime = 50, lastUpdate = 0 \<rparr>"

definition good_profile :: PerformanceMetric where
  "good_profile = \<lparr> total = 1, errors = 0, totalResponseTime = 50, lastUpdate = 0 \<rparr>"

text \<open>
  Configuration objects with a zero window and a negative ceiling or burst, the limiter
  the first of them makes, and a configuration object whose prefix is present with the
  value \<^verbatim>\<open>undefined\<close>.
\<close>

definition misconfigured :: RateLimitConfigObject where
  "misconfigured = \<lparr> o_windowMs = 0, o_maxRequests = - 1, o_keyPrefix = Absent,
      o_skipSuccessfulRequests = Absent, o_skipFailedRequests = Absent \<rparr>"

definition misconfigured_throttle :: ThrottleConfigObject where
  "misconfigured_throttle = \<lparr> o_burstLimit = - 1, o_sustainedLimit = 0, o_th_windowMs = 0,
      o_th_keyPrefix = Absent \<rparr>"

definition zero_window :: RateLimitConfig where
  "zero_window = \<lparr> windowMs = 0, maxRequests = - 1, keyPrefix = Some ''rate-limit'',
      skipSuccessfulRequests = Some False, skipFailedRequests = Some False \<rparr>"

definition undefined_prefix :: RateLimitConfigObject where
  "undefined_prefix = \<lparr> o_windowMs = 60000, o_maxRequests = 5, o_keyPrefix = Undefined,
      o_skipSuccessfulRequests = Given True, o_skipFailedRequests = Absent \<rparr>"

text \<open>
  The pre-configured limiter of the authentication routes, with a window of one minute:
  successful requests are refunded.
\<close>

definition auth_policy :: RateLimitConfig where
  "auth_policy = \<lparr> windowMs = 60000, maxRequests = 5, keyPrefix = Some ''auth'',
      skipSuccessfulRequests = Some True, skipFailedRequests = Some False \<rparr>"

section \<open>Properties of the fixed-window limiter\<close>

lemma isAllowed_up_fst:
  "fst (RateLimiter_isAllowed cfg (Up, Up) key w now s) =
     decision cfg now (count_of s (prefix_of cfg, key, now div windowMs cfg) + w)"
  by (auto simp: RateLimiter_isAllowed_def decision_def incrby_def expire_def count_of_def Let_def
      split: option.splits prod.splits sum.splits)

lemma isAllowed_up_count:
  "count_of (snd (RateLimiter_isAllowed cfg (Up, Up) key w now s)) k =
     (if k = (prefix_of cfg, key, now div windowMs cfg) then count_of s k + w else count_of s k)"
  by (auto simp: RateLimiter_isAllowed_def incrby_def expire_def count_of_def Let_def
      split: option.splits prod.splits sum.splits)

lemma checks_length: "length (fst (checks cfg key calls s)) = length calls"
  by (induction calls arbitrary: s) (auto simp: split_beta Let_def)

lemma checks_count:
  "\<forall>c\<in>set calls. fst c div windowMs cfg = idx \<Longrightarrow>
   count_of (snd (checks cfg key calls s)) (prefix_of cfg, key, idx) =
     count_of s (prefix_of cfg, key, idx) + sum_list (map snd calls)"
  by (induction calls arbitrary: s) (auto simp: split_beta Let_def isAllowed_up_count)

lemma checks_nth:
  "\<forall>c\<in>set calls. fst c div windowMs cfg = idx \<Longrightarrow> i < length calls \<Longrightarrow>
   fst (checks cfg key calls s) ! i =
     decision cfg (fst (calls ! i))
       (count_of s (prefix_of cfg, key, idx) + sum_list (map snd (take (Suc i) calls)))"
proof (induction calls arbitrary: s i)
  case Nil
  then show ?case by simp
next
  case (Cons c calls)
  obtain now w where c: "c = (now, w)" by (cases c)
  show ?case
  proof (cases i)
    case 0
    with Cons.prems c show ?thesis
      by (simp add: split_beta Let_def isAllowed_up_fst)
  next
    case (Suc j)
    with Cons.prems c Cons.IH[of j] show ?thesis
      by (simp add: split_beta Let_def isAllowed_up_count add.assoc)
  qed
qed

lemma prefix_sum_le:
  "\<forall>c\<in>set calls. 0 \<le> snd c \<Longrightarrow> sum_list (map snd (take n calls)) \<le> sum_list (map snd (calls :: (int \<times> int) list))"
proof -
  assume a: "\<forall>c\<in>set calls. 0 \<le> snd c"
  have "sum_list (map snd calls) = sum_list (map snd (take n calls)) + sum_list (map snd (drop n calls))"
    by (metis append_take_drop_id map_append sum_list.append)
  moreover have "0 \<le> sum_list (map snd (drop n calls))"
    using a by (intro sum_list_nonneg) (auto dest: in_set_dropD)
  ultimately show ?thesis by linarith
qed

lemma retry_bounds:
  "0 < (W::int) \<Longrightarrow> 0 < (now div W + 1) * W - now \<and> (now div W + 1) * W - now \<le> W"
proof -
  assume W: "0 < W"
  have "(now div W + 1) * W - now = W - now mod W"
    by (simp add: algebra_simps minus_mod_eq_mult_div [symmetric])
  moreover have "0 \<le> now mod W" "now mod W < W" using W by simp_all
  ultimately show ?thesis by linarith
qed

text \<open>
  Claim C2. Fixed-window limiter with ceiling \<open>C\<close> and window length \<open>W > 0\<close>:
  sequential checks of one key, all in the window with index \<open>idx\<close>, starting from
  a window without a counter, with weights that are not negative and sum to at most
  \<open>C\<close>, are all allowed; the \<open>i\<close>-th reports
  \<open>remaining = max 0 (C - cumulative count)\<close> and \<open>resetAt = (idx + 1) * W\<close>. A
  further check in the window whose weight brings the count above \<open>C\<close> is rejected
  with \<open>retryAfter = resetAt - now\<close>, and \<open>0 < retryAfter \<le> W\<close>.
\<close>

theorem fixed_window_within_ceiling:
  assumes W: "0 < windowMs cfg"
    and calls: "\<forall>c\<in>set calls. fst c div windowMs cfg = idx \<and> 0 \<le> snd c"
    and fresh: "s (prefix_of cfg, key, idx) = None"
    and sum: "sum_list (map snd calls) \<le> maxRequests cfg"
    and now': "now' div windowMs cfg = idx"
    and over: "maxRequests cfg < sum_list (map snd calls) + w'"
  shows "length (fst (checks cfg key calls s)) = length calls \<and>
    (\<forall>i<length calls. fst (checks cfg key calls s) ! i =
       \<lparr> allowed = True,
         remaining = max 0 (maxRequests cfg - sum_list (map snd (take (Suc i) calls))),
         resetAt = (idx + 1) * windowMs cfg, retryAfter = None \<rparr>) \<and>
    fst (RateLimiter_isAllowed cfg (Up, Up) key w' now' (snd (checks cfg key calls s))) =
       \<lparr> allowed = False,
         remaining = max 0 (maxRequests cfg - (sum_list (map snd calls) + w')),
         resetAt = (idx + 1) * windowMs cfg,
         retryAfter = Some ((idx + 1) * windowMs cfg - now') \<rparr> \<and>
    0 < (idx + 1) * windowMs cfg - now' \<and> (idx + 1) * windowMs cfg - now' \<le> windowMs cfg"
proof -
  have in_win: "\<forall>c\<in>set calls. fst c div windowMs cfg = idx" using calls by simp
  have nonneg: "\<forall>c\<in>set calls. 0 \<le> snd c" using calls by simp
  have zero: "count_of s (prefix_of cfg, key, idx) = 0" using fresh by (simp add: count_of_def)
  have each: "fst (checks cfg key calls s) ! i =
       \<lparr> allowed = True,
         remaining = max 0 (maxRequests cfg - sum_list (map snd (take (Suc i) calls))),
         resetAt = (idx + 1) * windowMs cfg, retryAfter = None \<rparr>" if i: "i < length calls" for i
  proof -
    have "sum_list (map snd (take (Suc i) calls)) \<le> maxRequests cfg"
      using prefix_sum_le[OF nonneg, of "Suc i"] sum by linarith
    moreover have "fst (calls ! i) div windowMs cfg = idx"
      using in_win i by simp
    ultimately show ?thesis
      using checks_nth[OF in_win i, of key s] zero by (simp add: decision_def)
  qed
  have last: "fst (RateLimiter_isAllowed cfg (Up, Up) key w' now' (snd (checks cfg key calls s))) =
       \<lparr> allowed = False,
         remaining = max 0 (maxRequests cfg - (sum_list (map snd calls) + w')),
         resetAt = (idx + 1) * windowMs cfg,
         retryAfter = Some ((idx + 1) * windowMs cfg - now') \<rparr>"
    using checks_count[OF in_win, of key s] zero now' over
    by (simp add: isAllowed_up_fst decision_def)
  have bounds: "0 < (idx + 1) * windowMs cfg - now' \<and> (idx + 1) * windowMs cfg - now' \<le> windowMs cfg"
    using retry_bounds[OF W, of now'] now' by simp
  show ?thesis using checks_length each last bounds by blast
qed

text \<open>
  The scenario of the specification: with \<open>windowMs = 60000\<close> and
  \<open>maxRequests = 5\<close>, five checks of weight 1 are allowed with remaining 4, 3, 2, 1,
  0, and the sixth is rejected.
\<close>

theorem fixed_window_within_ceiling_witness:
  "map allowed (fst (checks policy5 ''k'' five_calls Map.empty)) = [True, True, True, True, True] \<and>
   map remaining (fst (checks policy5 ''k'' five_calls Map.empty)) = [4, 3, 2, 1, 0] \<and>
   fst (RateLimiter_isAllowed policy5 (Up, Up) ''k'' 1 119999
         (snd (checks policy5 ''k'' five_calls Map.empty)))
      = \<lparr> allowed = False, remaining = 0, resetAt = 120000, retryAfter = Some 1 \<rparr>"
proof -
  have h1: "0 < windowMs policy5" by (simp add: policy5_def)
  have h2: "\<forall>c\<in>set five_calls. fst c div windowMs policy5 = 1 \<and> 0 \<le> snd c"
    by (simp add: policy5_def five_calls_def)
  have h3: "Map.empty (prefix_of policy5, ''k'', 1::int) = None" by simp
  have h4: "sum_list (map snd five_calls) \<le> maxRequests policy5"
    by (simp add: policy5_def five_calls_def)
  have h5: "119999 div windowMs policy5 = 1" by (simp add: policy5_def)
  have h6: "maxRequests policy5 < sum_list (map snd five_calls) + 1"
    by (simp add: policy5_def five_calls_def)
  note r = fixed_window_within_ceiling[OF h1 h2 h3 h4 h5 h6]
  have len: "length (fst (checks policy5 ''k'' five_calls Map.empty)) = 5"
    using r by (simp add: five_calls_def)
  have nth: "fst (checks policy5 ''k'' five_calls Map.empty) ! i =
       \<lparr> allowed = True,
         remaining = max 0 (maxRequests policy5 - sum_list (map snd (take (Suc i) five_calls))),
         resetAt = (1 + 1) * windowMs policy5, retryAfter = None \<rparr>" if "i < 5" for i
    using r that by (simp add: five_calls_def)
  have n0: "fst (checks policy5 ''k'' five_calls Map.empty) ! 0 =
      \<lparr> allowed = True, remaining = 4, resetAt = 120000, retryAfter = None \<rparr>"
    using nth[of 0] by (simp add: policy5_def five_calls_def)
  have n1: "fst (checks policy5 ''k'' five_calls Map.empty) ! Suc 0 =
      \<lparr> allowed = True, remaining = 3, resetAt = 120000, retryAfter = None \<rparr>"
    using nth[of 1] by (simp add: policy5_def five_calls_def)
  have n2: "fst (checks policy5 ''k'' five_calls Map.empty) ! Suc (Suc 0) =
      \<lparr> allowed = True, remaining = 2, resetAt = 120000, retryAfter = None \<rparr>"
    using nth[of 2] by (simp add: policy5_def five_calls_def numeral_2_eq_2)
  have n3: "fst (checks policy5 ''k'' five_calls Map.empty) ! Suc (Suc (Suc 0)) =
      \<lparr> allowed = True, remaining = 1, resetAt = 120000, retryAfter = None \<rparr>"
    using nth[of 3] by (simp add: policy5_def five_calls_def numeral_3_eq_3)
  have n4: "fst (checks policy5 ''k'' five_calls Map.empty) ! Suc (Suc (Suc (Suc 0))) =
      \<lparr> allowed = True, remaining = 0, resetAt = 120000, retryAfter = None \<rparr>"
    using nth[of 4] by (simp add: policy5_def five_calls_def eval_nat_numeral)
  have a: "map allowed (fst (checks policy5 ''k'' five_calls Map.empty)) = [True, True, True, True, True]"
    by (rule nth_equalityI) (auto simp: len n0 n1 n2 n3 n4 numeral_eq_Suc less_Suc_eq_0_disj)
  have b: "map remaining (fst (checks policy5 ''k'' five_calls Map.empty)) = [4, 3, 2, 1, 0]"
    by (rule nth_equalityI) (auto simp: len n0 n1 n2 n3 n4 numeral_eq_Suc less_Suc_eq_0_disj)
  have c: "fst (RateLimiter_isAllowed policy5 (Up, Up) ''k'' 1 119999
         (snd (checks policy5 ''k'' five_calls Map.empty)))
      = \<lparr> allowed = False, remaining = 0, resetAt = 120000, retryAfter = Some 1 \<rparr>"
    using r by (simp add: policy5_def five_calls_def)
  show ?thesis using a b c by simp
qed

section \<open>Properties of the token buckets\<close>

lemma rounding_exact: "rounding exact"
  by (simp add: rounding_def exact_def mono_def)

lemma rounding_double:
  assumes "rounding rnd" and "\<bar>m\<bar> \<le> 2 ^ 53" and "- 1000 \<le> e" and "e \<le> 900"
  shows "rnd (of_int m * 2 powi e) = of_int m * 2 powi e"
  using assms unfolding rounding_def by blast

lemma rounding_int:
  assumes "rounding rnd" and "\<bar>n\<bar> \<le> 2 ^ 53"
  shows "rnd (of_int n) = of_int n"
  using rounding_double[OF assms, of 0] by simp

lemma rounding_zero: "rounding rnd \<Longrightarrow> rnd 0 = 0"
  using rounding_int[of rnd 0] by simp

lemma rounding_nonneg: "rounding rnd \<Longrightarrow> 0 \<le> x \<Longrightarrow> 0 \<le> rnd x"
  using rounding_zero[of rnd] by (metis monoD rounding_def)

lemma rounding_le: "rounding rnd \<Longrightarrow> x \<le> y \<Longrightarrow> rnd x \<le> rnd y"
  by (simp add: rounding_def monoD)

lemma window_secs_pos:
  assumes r: "rounding rnd" and W: "0 < th_windowMs cfg"
  shows "0 < window_secs rnd cfg"
proof -
  have fx: "rnd (of_int 1 * 2 powi (- 10)) = of_int 1 * 2 powi (- 10)"
    using r by (rule rounding_double) simp_all
  have p: "(2::rat) powi (- 10) = 1 / 1024" by (simp add: power_int_minus field_simps)
  have "(1 / 1024 :: rat) \<le> of_int (th_windowMs cfg) / 1000"
  proof -
    have "(1::rat) \<le> of_int (th_windowMs cfg)" using W by linarith
    then show ?thesis by simp
  qed
  then have "rnd (1 / 1024) \<le> rnd (of_int (th_windowMs cfg) / 1000)"
    using r by (rule rounding_le[rotated])
  then show ?thesis using fx p by (simp add: window_secs_def)
qed

lemma throttler_down:
  "DistributedThrottler_isAllowed rnd cfg Down key cost now s =
     (\<lparr> th_allowed = True, tokensRemaining = burstLimit cfg, th_retryAfter = None \<rparr>, s)"
  by (simp add: DistributedThrottler_isAllowed_def eval_script_def)

lemma script_eq:
  "token_bucket_script rnd (th_prefix_of cfg, key) (burstLimit cfg) (sustainedLimit cfg)
       (th_windowMs cfg) cost now s =
     (let r = refilled_level rnd cfg key now s;
          level = (if cost \<le> r then rnd (r - cost) else r);
          s1 = hmset (th_prefix_of cfg, key) level now s
      in case script_expire (th_prefix_of cfg, key) (window_secs rnd cfg) s1 of
           Inl e \<Rightarrow> (Inl e, s1)
         | Inr s2 \<Rightarrow> (Inr (if cost \<le> r then 1 else 0, level), s2))"
proof -
  define r where "r = refilled_level rnd cfg key now s"
  have r_eq:
    "min (burstLimit cfg)
       (rnd ((case s (th_prefix_of cfg, key) of None \<Rightarrow> burstLimit cfg | Some (t, l, e) \<Rightarrow> t) +
             rnd (rnd (of_int (now - (case s (th_prefix_of cfg, key) of
                                        None \<Rightarrow> now | Some (t, l, e) \<Rightarrow> l)) / 1000) *
                  rnd (sustainedLimit cfg / rnd (of_int (th_windowMs cfg) / 1000))))) = r"
    unfolding r_def refilled_level_def refill_rate_def window_secs_def Let_def ..
  show ?thesis
    unfolding token_bucket_script_def Let_def r_eq r_def[symmetric] window_secs_def
    by (cases "cost \<le> r") simp_all
qed

lemma expire_after_hmset:
  assumes "is_integer secs" and "0 < secs"
  shows "script_expire k secs (hmset k level now s) = Inr (s(k \<mapsto> (level, now, Some \<lfloor>secs\<rfloor>)))"
  using assms by (simp add: script_expire_def hmset_def)

lemma throttler_completed:
  assumes "is_integer (window_secs rnd cfg)" and "0 < window_secs rnd cfg"
  shows "DistributedThrottler_isAllowed rnd cfg Up key cost now s =
     (let r = refilled_level rnd cfg key now s
      in if cost \<le> r
         then (\<lparr> th_allowed = True,
                 tokensRemaining = of_int (reply_integer (rnd (r - cost))),
                 th_retryAfter = None \<rparr>,
               s((th_prefix_of cfg, key) \<mapsto>
                   (rnd (r - cost), now, Some \<lfloor>window_secs rnd cfg\<rfloor>)))
         else (\<lparr> th_allowed = False,
                 tokensRemaining = of_int (reply_integer r),
                 th_retryAfter =
                   Some (rnd (rnd (rnd (cost - of_int (reply_integer r)) / refill_rate rnd cfg)
                           * 1000)) \<rparr>,
               s((th_prefix_of cfg, key) \<mapsto> (r, now, Some \<lfloor>window_secs rnd cfg\<rfloor>))))"
  unfolding DistributedThrottler_isAllowed_def eval_script_def script_eq Let_def
    expire_after_hmset[OF assms]
  by (simp add: refill_rate_def window_secs_def)

lemma throttler_aborted:
  assumes "\<not> is_integer (window_secs rnd cfg)"
  shows "DistributedThrottler_isAllowed rnd cfg Up key cost now s =
     (\<lparr> th_allowed = True, tokensRemaining = burstLimit cfg, th_retryAfter = None \<rparr>,
      hmset (th_prefix_of cfg, key)
        (let r = refilled_level rnd cfg key now s in if cost \<le> r then rnd (r - cost) else r)
        now s)"
  unfolding DistributedThrottler_isAllowed_def eval_script_def script_eq Let_def
  using assms by (simp add: script_expire_def)

lemma consume_eq:
  "consume rnd n now b =
     (let elapsed = rnd (of_int (now - lastRefill b) / 1000);
          refilled = min (capacity b) (rnd (tokens b + rnd (elapsed * refillRate b)))
      in if refilled \<ge> n
         then (True, b \<lparr> tokens := rnd (refilled - n), lastRefill := now \<rparr>)
         else (False, b \<lparr> tokens := refilled, lastRefill := now \<rparr>))"
  by (simp add: consume_def refill_def Let_def)

lemma window_secs_whole:
  assumes r: "rounding rnd" and m: "th_windowMs cfg mod 1000 = 0"
    and W: "0 < th_windowMs cfg" and big: "th_windowMs cfg \<le> 2 ^ 53"
  shows "window_secs rnd cfg = of_int (th_windowMs cfg div 1000)"
    and "is_integer (window_secs rnd cfg)"
proof -
  have "th_windowMs cfg = th_windowMs cfg div 1000 * 1000"
    using div_mult_mod_eq[of "th_windowMs cfg" 1000] m by simp
  then have "(of_int (th_windowMs cfg) :: rat) = of_int (th_windowMs cfg div 1000 * 1000)"
    by simp
  then have q: "(of_int (th_windowMs cfg) :: rat) / 1000 = of_int (th_windowMs cfg div 1000)"
    by simp
  have "0 \<le> th_windowMs cfg div 1000" using W by (simp add: pos_imp_zdiv_nonneg_iff)
  moreover have "th_windowMs cfg div 1000 \<le> th_windowMs cfg div 1"
    using W by (intro zdiv_mono2) simp_all
  ultimately have small: "\<bar>th_windowMs cfg div 1000\<bar> \<le> 2 ^ 53" using big by simp
  show eq: "window_secs rnd cfg = of_int (th_windowMs cfg div 1000)"
    unfolding window_secs_def q using r small by (rule rounding_int)
  show "is_integer (window_secs rnd cfg)" unfolding eq by (simp add: is_integer_def)
qed






lemma refilled_bounds:
  assumes r: "rounding rnd" and B: "0 \<le> burstLimit cfg" and S: "0 \<le> sustainedLimit cfg"
    and W: "0 < th_windowMs cfg" and inv: "within_burst (burstLimit cfg) s"
    and t: "case s (th_prefix_of cfg, key) of None \<Rightarrow> True | Some (t, lr, e) \<Rightarrow> lr \<le> now"
  shows "0 \<le> refilled_level rnd cfg key now s \<and> refilled_level rnd cfg key now s \<le> burstLimit cfg"
proof -
  define tokens where "tokens = (case s (th_prefix_of cfg, key) of
                      None \<Rightarrow> burstLimit cfg | Some (t, l, e) \<Rightarrow> t)"
  define last_refill where "last_refill = (case s (th_prefix_of cfg, key) of
                      None \<Rightarrow> now | Some (t, l, e) \<Rightarrow> l)"
  have tok: "0 \<le> tokens" using inv B
    by (auto simp: tokens_def within_burst_def split: option.splits)
  have lr: "last_refill \<le> now" using t by (auto simp: last_refill_def split: option.splits)
  have "0 \<le> (of_int (now - last_refill) :: rat) / 1000" using lr by simp
  then have e: "0 \<le> rnd (of_int (now - last_refill) / 1000)" using r by (rule rounding_nonneg[rotated])
  have "0 \<le> window_secs rnd cfg" using window_secs_pos[OF r W] by simp
  then have "0 \<le> sustainedLimit cfg / window_secs rnd cfg" using S by simp
  then have "0 \<le> refill_rate rnd cfg" unfolding refill_rate_def using r by (rule rounding_nonneg[rotated])
  then have "0 \<le> rnd (of_int (now - last_refill) / 1000) * refill_rate rnd cfg"
    using e by simp
  then have "0 \<le> rnd (rnd (of_int (now - last_refill) / 1000) * refill_rate rnd cfg)"
    using r by (rule rounding_nonneg[rotated])
  then have "0 \<le> tokens + rnd (rnd (of_int (now - last_refill) / 1000) * refill_rate rnd cfg)"
    using tok by simp
  then have "0 \<le> rnd (tokens + rnd (rnd (of_int (now - last_refill) / 1000) * refill_rate rnd cfg))"
    using r by (rule rounding_nonneg[rotated])
  moreover have "refilled_level rnd cfg key now s =
      min (burstLimit cfg) (rnd (tokens + rnd (rnd (of_int (now - last_refill) / 1000) * refill_rate rnd cfg)))"
    unfolding refilled_level_def Let_def tokens_def last_refill_def ..
  ultimately show ?thesis using B by simp
qed

lemma level_bounds:
  assumes r: "rounding rnd" and fx: "rnd B = B" and c: "0 \<le> cost"
    and x: "0 \<le> x" "x \<le> B"
  shows "0 \<le> (if cost \<le> x then rnd (x - cost) else x) \<and>
         (if cost \<le> x then rnd (x - cost) else x) \<le> B"
proof (cases "cost \<le> x")
  case True
  then have "0 \<le> rnd (x - cost)" using rounding_nonneg[OF r, of "x - cost"] by simp
  moreover have "rnd (x - cost) \<le> rnd B" using rounding_le[OF r, of "x - cost" B] c x by simp
  ultimately show ?thesis using True fx by simp
next
  case False
  then show ?thesis using x by simp
qed

lemma throttler_store:
  assumes r: "rounding rnd" and W: "0 < th_windowMs cfg"
  shows "\<exists>e. snd (DistributedThrottler_isAllowed rnd cfg Up key cost now s) =
      s((th_prefix_of cfg, key) \<mapsto>
         (if cost \<le> refilled_level rnd cfg key now s
          then rnd (refilled_level rnd cfg key now s - cost)
          else refilled_level rnd cfg key now s, now, e))"
proof (cases "is_integer (window_secs rnd cfg)")
  case True
  show ?thesis
    unfolding throttler_completed[OF True window_secs_pos[OF r W]] Let_def
    by (cases "cost \<le> refilled_level rnd cfg key now s") (simp_all, blast+)
next
  case False
  show ?thesis
    unfolding throttler_aborted[OF False] Let_def hmset_def snd_conv by blast
qed

lemma within_burst_step:
  assumes r: "rounding rnd" and fx: "rnd (burstLimit cfg) = burstLimit cfg"
    and B: "0 \<le> burstLimit cfg" and S: "0 \<le> sustainedLimit cfg"
    and W: "0 < th_windowMs cfg" and inv: "within_burst (burstLimit cfg) s"
    and ok: "l = Up \<longrightarrow> 0 \<le> cost \<and>
       (case s (th_prefix_of cfg, key) of None \<Rightarrow> True | Some (t, lr, e) \<Rightarrow> lr \<le> now)"
  shows "within_burst (burstLimit cfg) (snd (DistributedThrottler_isAllowed rnd cfg l key cost now s))"
proof (cases l)
  case Down
  then show ?thesis using inv by (simp add: throttler_down)
next
  case Up
  have c: "0 \<le> cost" and t: "case s (th_prefix_of cfg, key) of None \<Rightarrow> True | Some (t, lr, e) \<Rightarrow> lr \<le> now"
    using ok Up by simp_all
  note rb = refilled_bounds[OF r B S W inv t]
  note lb = level_bounds[OF r fx c conjunct1[OF rb] conjunct2[OF rb]]
  obtain e where st: "snd (DistributedThrottler_isAllowed rnd cfg Up key cost now s) =
      s((th_prefix_of cfg, key) \<mapsto>
         (if cost \<le> refilled_level rnd cfg key now s
          then rnd (refilled_level rnd cfg key now s - cost)
          else refilled_level rnd cfg key now s, now, e))"
    using throttler_store[OF r W] by blast
  show ?thesis
    unfolding Up st within_burst_def using lb inv by (auto simp: within_burst_def)
qed

lemma within_burst_run:
  assumes r: "rounding rnd" and fx: "rnd (burstLimit cfg) = burstLimit cfg"
    and B: "0 \<le> burstLimit cfg" and S: "0 \<le> sustainedLimit cfg"
    and W: "0 < th_windowMs cfg"
  shows "within_burst (burstLimit cfg) s \<Longrightarrow> timely rnd cfg ops s \<Longrightarrow>
         within_burst (burstLimit cfg) (run_ops rnd cfg ops s)"
proof (induction ops arbitrary: s)
  case Nil
  then show ?case by simp
next
  case (Cons op ops)
  show ?case
  proof (cases op)
    case (Check l key cost now)
    have "within_burst (burstLimit cfg) (snd (DistributedThrottler_isAllowed rnd cfg l key cost now s))"
      using Cons.prems Check by (intro within_burst_step[OF r fx B S W]) simp_all
    then show ?thesis using Cons.IH Cons.prems(2) Check by simp
  next
    case (Evict key)
    have "within_burst (burstLimit cfg) (s((th_prefix_of cfg, key) := None))"
      using Cons.prems(1) by (simp add: within_burst_def)
    then show ?thesis using Cons.IH Cons.prems(2) Evict by simp
  qed
qed

lemma skewed_quantities:
  "window_secs exact skewed = 60" "refill_rate exact skewed = 1"
  "th_prefix_of skewed = ''throttle''" "burstLimit skewed = 1"
  "is_integer (window_secs exact skewed)" "0 < window_secs exact skewed"
  by (simp_all add: window_secs_def refill_rate_def exact_def skewed_def th_prefix_of_def
      is_integer_def)

lemma skewed_check:
  "DistributedThrottler_isAllowed exact skewed Up key cost now s =
     (let r = refilled_level exact skewed key now s
      in if cost \<le> r
         then (\<lparr> th_allowed = True, tokensRemaining = of_int (reply_integer (r - cost)),
                 th_retryAfter = None \<rparr>,
               s((''throttle'', key) \<mapsto> (r - cost, now, Some 60)))
         else (\<lparr> th_allowed = False, tokensRemaining = of_int (reply_integer r),
                 th_retryAfter = Some ((cost - of_int (reply_integer r)) * 1000) \<rparr>,
               s((''throttle'', key) \<mapsto> (r, now, Some 60))))"
  unfolding throttler_completed[OF skewed_quantities(5,6)] Let_def skewed_quantities
  by (simp add: exact_def)

lemma skewed_refilled:
  "refilled_level exact skewed key now s =
     (case s (''throttle'', key) of
        None \<Rightarrow> 1
      | Some (t, l, e) \<Rightarrow> min 1 (t + of_int (now - l) / 1000))"
  by (simp add: refilled_level_def skewed_quantities exact_def Let_def split: option.splits)

text \<open>
  Claim C7, as stated, fails: nothing is clamped. With a burst of 1 refilled at one
  token a second, a check at time 1000 followed by a check at time 0 (the clock ran
  backwards) persists the level -1; and a check of cost -1 on a fresh bucket persists
  the level 2, above the burst.
\<close>

theorem token_level_negative:
  "run_ops exact skewed [Check Up ''k'' 1 1000, Check Up ''k'' 1 0] Map.empty (''throttle'', ''k'') =
     Some (- 1, 0, Some 60) \<and>
   run_ops exact skewed [Check Up ''k'' (- 1) 0] Map.empty (''throttle'', ''k'') =
     Some (2, 0, Some 60)"
  by (simp add: skewed_check skewed_refilled Let_def)

text \<open>
  Claim C7, amended. With a burst limit \<open>B\<close> that is a double and not negative, a
  sustained limit that is not negative and a positive window, in double arithmetic:
  from a store whose levels lie in \<open>[0, B]\<close>, every run of checks (reaching the
  store or not) and evictions that is timely leaves every persisted level in
  \<open>[0, B]\<close>. Timely means that each check that reaches the store has a cost that is
  not negative and a time at or after the last refill stored for its key. There is no
  clamp at zero: each check that reaches the store persists the level the refill
  formula gives, less the cost when it covers it, whatever the sign; and when the
  window is a whole number of seconds the decision is \<open>cost \<le> refilled\<close>, with a
  negative elapsed time as with any other. \<^verbatim>\<open>TokenBucket.consume\<close> keeps
  the tokens in \<open>[0, capacity]\<close> under the same conditions.
\<close>

theorem token_level_bounds:
  assumes r: "rounding rnd" and fx: "rnd (burstLimit cfg) = burstLimit cfg"
    and B: "0 \<le> burstLimit cfg" and S: "0 \<le> sustainedLimit cfg"
    and W: "0 < th_windowMs cfg"
    and inv: "within_burst (burstLimit cfg) s" and ok: "timely rnd cfg ops s"
  shows
   "(\<forall>k tok lr e. run_ops rnd cfg ops s k = Some (tok, lr, e) \<longrightarrow>
        0 \<le> tok \<and> tok \<le> burstLimit cfg) \<and>
    (\<exists>e. snd (DistributedThrottler_isAllowed rnd cfg Up key cost now s') =
        s'((th_prefix_of cfg, key) \<mapsto>
            (if cost \<le> refilled_level rnd cfg key now s'
             then rnd (refilled_level rnd cfg key now s' - cost)
             else refilled_level rnd cfg key now s', now, e))) \<and>
    (is_integer (window_secs rnd cfg) \<longrightarrow>
       th_allowed (fst (DistributedThrottler_isAllowed rnd cfg Up key cost now s')) =
         (cost \<le> refilled_level rnd cfg key now s')) \<and>
    (0 \<le> tokens b \<and> tokens b \<le> capacity b \<and> rnd (capacity b) = capacity b \<and>
     lastRefill b \<le> now' \<and> 0 \<le> refillRate b \<and> 0 \<le> n \<longrightarrow>
       0 \<le> tokens (snd (consume rnd n now' b)) \<and>
       tokens (snd (consume rnd n now' b)) \<le> capacity b)"
proof -
  have "within_burst (burstLimit cfg) (run_ops rnd cfg ops s)"
    using within_burst_run[OF r fx B S W inv ok] .
  then have A: "\<forall>k tok lr e. run_ops rnd cfg ops s k = Some (tok, lr, e) \<longrightarrow>
        0 \<le> tok \<and> tok \<le> burstLimit cfg"
    unfolding within_burst_def .
  note Bst = throttler_store[OF r W, of key cost now s']
  have C: "is_integer (window_secs rnd cfg) \<longrightarrow>
       th_allowed (fst (DistributedThrottler_isAllowed rnd cfg Up key cost now s')) =
         (cost \<le> refilled_level rnd cfg key now s')"
  proof
    assume i: "is_integer (window_secs rnd cfg)"
    show "th_allowed (fst (DistributedThrottler_isAllowed rnd cfg Up key cost now s')) =
         (cost \<le> refilled_level rnd cfg key now s')"
      unfolding throttler_completed[OF i window_secs_pos[OF r W]] Let_def
      by (cases "cost \<le> refilled_level rnd cfg key now s'") simp_all
  qed
  have D: "0 \<le> tokens b \<and> tokens b \<le> capacity b \<and> rnd (capacity b) = capacity b \<and>
     lastRefill b \<le> now' \<and> 0 \<le> refillRate b \<and> 0 \<le> n \<longrightarrow>
       0 \<le> tokens (snd (consume rnd n now' b)) \<and>
       tokens (snd (consume rnd n now' b)) \<le> capacity b"
  proof
    assume h: "0 \<le> tokens b \<and> tokens b \<le> capacity b \<and> rnd (capacity b) = capacity b \<and>
     lastRefill b \<le> now' \<and> 0 \<le> refillRate b \<and> 0 \<le> n"
    define x where "x = min (capacity b)
        (rnd (tokens b + rnd (rnd (of_int (now' - lastRefill b) / 1000) * refillRate b)))"
    have "0 \<le> (of_int (now' - lastRefill b) :: rat) / 1000" using h by simp
    then have "0 \<le> rnd (of_int (now' - lastRefill b) / 1000)"
      using rounding_nonneg[OF r] by blast
    then have "0 \<le> rnd (of_int (now' - lastRefill b) / 1000) * refillRate b"
      using h by simp
    then have "0 \<le> rnd (rnd (of_int (now' - lastRefill b) / 1000) * refillRate b)"
      using rounding_nonneg[OF r] by blast
    then have "0 \<le> tokens b + rnd (rnd (of_int (now' - lastRefill b) / 1000) * refillRate b)"
      using h by simp
    then have "0 \<le> rnd (tokens b + rnd (rnd (of_int (now' - lastRefill b) / 1000) * refillRate b))"
      using rounding_nonneg[OF r] by blast
    moreover have "0 \<le> capacity b" using h by linarith
    ultimately have x: "0 \<le> x" "x \<le> capacity b" by (simp_all add: x_def)
    have fxc: "rnd (capacity b) = capacity b" and n: "0 \<le> n" using h by simp_all
    note lb = level_bounds[OF r fxc n x]
    have "consume rnd n now' b =
       (if x \<ge> n then (True, b \<lparr> tokens := rnd (x - n), lastRefill := now' \<rparr>)
        else (False, b \<lparr> tokens := x, lastRefill := now' \<rparr>))"
      unfolding consume_eq Let_def x_def ..
    then have "tokens (snd (consume rnd n now' b)) = (if n \<le> x then rnd (x - n) else x)"
      by simp
    then show "0 \<le> tokens (snd (consume rnd n now' b)) \<and>
       tokens (snd (consume rnd n now' b)) \<le> capacity b"
      using lb by simp
  qed
  show ?thesis by (rule conjI[OF A conjI[OF Bst conjI[OF C D]]])
qed

theorem token_level_bounds_witness:
  "run_ops exact skewed [Check Up ''a'' 1 1000, Check Up ''b'' 1 0, Evict ''b'', Check Down ''a'' 1 0,
       Check Up ''a'' 1 1500] Map.empty (''throttle'', ''a'') = Some (1 / 2, 1500, Some 60) \<and>
   0 \<le> (1 / 2 :: rat) \<and> (1 / 2 :: rat) \<le> burstLimit skewed \<and>
   th_allowed (fst (DistributedThrottler_isAllowed exact skewed Up ''k'' (1 / 2) 0
       (Map.empty((''throttle'', ''k'') \<mapsto> (1, 500, Some 60))))) = True \<and>
   tokens (snd (consume exact 1 1000 (TokenBucket_new 2 1 0))) = 1"
proof -
  let ?ops = "[Check Up ''a'' 1 1000, Check Up ''b'' 1 0, Evict ''b'', Check Down ''a'' 1 0,
       Check Up ''a'' 1 1500]"
  let ?s' = "Map.empty((''throttle'', ''k'') \<mapsto> (1::rat, 500::int, Some (60::int)))"
  have h2: "exact (burstLimit skewed) = burstLimit skewed" by (simp add: exact_def)
  have h3: "0 \<le> burstLimit skewed" "0 \<le> sustainedLimit skewed" "0 < th_windowMs skewed"
    by (simp_all add: skewed_def)
  have h4: "within_burst (burstLimit skewed) Map.empty" by (simp add: within_burst_def)
  have h5: "timely exact skewed ?ops Map.empty"
    by (simp add: skewed_check skewed_refilled throttler_down skewed_quantities Let_def)
  note t = token_level_bounds[OF rounding_exact h2 h3 h4 h5, where key = "''k''" and cost = "1 / 2"
      and now = 0 and s' = ?s' and b = "TokenBucket_new 2 1 0" and now' = 1000 and n = 1]
  have run: "run_ops exact skewed ?ops Map.empty (''throttle'', ''a'') = Some (1 / 2, 1500, Some 60)"
    by (simp add: skewed_check skewed_refilled throttler_down skewed_quantities Let_def)
  have b1: "0 \<le> (1 / 2 :: rat) \<and> (1 / 2 :: rat) \<le> burstLimit skewed"
    using t run by blast
  have r0: "refilled_level exact skewed ''k'' 0 ?s' = 1 / 2"
    by (simp add: skewed_refilled)
  have al: "th_allowed (fst (DistributedThrottler_isAllowed exact skewed Up ''k'' (1 / 2) 0 ?s')) =
      ((1 / 2 :: rat) \<le> refilled_level exact skewed ''k'' 0 ?s')"
    using t skewed_quantities(5) by blast
  have c: "tokens (snd (consume exact 1 1000 (TokenBucket_new 2 1 0))) = 1"
    by (simp add: consume_eq TokenBucket_new_def exact_def Let_def)
  show ?thesis using run b1 al r0 c by simp
qed

lemma same_time_refilled:
  assumes r: "rounding rnd" and B: "burstLimit cfg = of_nat B" and big: "B \<le> 2 ^ 53"
    and n: "n \<le> B"
    and st: "(s (th_prefix_of cfg, key) = None \<and> n = B) \<or>
             (\<exists>e. s (th_prefix_of cfg, key) = Some (of_nat n, now, e))"
  shows "refilled_level rnd cfg key now s = of_nat n"
proof -
  have z: "rnd 0 = 0" using r by (rule rounding_zero)
  have "\<bar>int n\<bar> \<le> 2 ^ 53" using n big by simp
  then have fx: "rnd (of_int (int n)) = of_int (int n)" using r by (intro rounding_int)
  then have fx': "rnd (of_nat n) = of_nat n" by simp
  have le: "(of_nat n :: rat) \<le> of_nat B" using n by simp
  from st show ?thesis
  proof
    assume "s (th_prefix_of cfg, key) = None \<and> n = B"
    then show ?thesis
      using fx' by (simp add: refilled_level_def Let_def z B)
  next
    assume "\<exists>e. s (th_prefix_of cfg, key) = Some (of_nat n, now, e)"
    then show ?thesis
      using fx' le by (auto simp: refilled_level_def Let_def z B)
  qed
qed

lemma same_time_step:
  assumes r: "rounding rnd" and B: "burstLimit cfg = of_nat B" and big: "B \<le> 2 ^ 53"
    and W: "0 < th_windowMs cfg" and i: "is_integer (window_secs rnd cfg)"
    and n: "n \<le> B"
    and st: "(s (th_prefix_of cfg, key) = None \<and> n = B) \<or>
             (\<exists>e. s (th_prefix_of cfg, key) = Some (of_nat n, now, e))"
  shows "th_allowed (fst (DistributedThrottler_isAllowed rnd cfg Up key 1 now s)) = (0 < n) \<and>
         (\<exists>e. snd (DistributedThrottler_isAllowed rnd cfg Up key 1 now s) (th_prefix_of cfg, key) =
                 Some (of_nat (n - 1), now, e))"
proof -
  have lvl: "refilled_level rnd cfg key now s = of_nat n"
    using r B big n st by (rule same_time_refilled)
  have "\<bar>int (n - 1)\<bar> \<le> 2 ^ 53" using n big by simp
  then have "rnd (of_int (int (n - 1))) = of_int (int (n - 1))" using r by (intro rounding_int)
  then have fx: "rnd (of_nat (n - 1)) = of_nat (n - 1)" by simp
  show ?thesis
  proof (cases "0 < n")
    case True
    then have one: "(1::rat) \<le> of_nat n" by simp
    have sub: "(of_nat (n - 1) :: rat) = of_nat n - 1" using True by (simp add: of_nat_diff)
    have fx': "rnd (of_nat n - 1) = of_nat n - 1" using fx unfolding sub .
    show ?thesis
      unfolding throttler_completed[OF i window_secs_pos[OF r W]] Let_def lvl sub
      using True one by (simp add: fx')
  next
    case False
    then have n0: "n = 0" by simp
    show ?thesis
      unfolding throttler_completed[OF i window_secs_pos[OF r W]] Let_def lvl
      by (simp add: n0)
  qed
qed

lemma same_time_checks:
  assumes r: "rounding rnd" and B: "burstLimit cfg = of_nat B" and big: "B \<le> 2 ^ 53"
    and W: "0 < th_windowMs cfg" and i: "is_integer (window_secs rnd cfg)"
  shows "n \<le> B \<Longrightarrow>
     (s (th_prefix_of cfg, key) = None \<and> n = B) \<or>
       (\<exists>e. s (th_prefix_of cfg, key) = Some (of_nat n, now, e)) \<Longrightarrow>
     map th_allowed (fst (throttle_checks rnd cfg key (replicate m (now, 1)) s)) =
       replicate (min n m) True @ replicate (m - n) False \<and>
     (0 < m \<longrightarrow>
        (\<exists>e. snd (throttle_checks rnd cfg key (replicate m (now, 1)) s) (th_prefix_of cfg, key) =
               Some (of_nat (n - m), now, e)))"
proof (induction m arbitrary: s n)
  case 0
  then show ?case by simp
next
  case (Suc m)
  let ?s1 = "snd (DistributedThrottler_isAllowed rnd cfg Up key 1 now s)"
  have st: "th_allowed (fst (DistributedThrottler_isAllowed rnd cfg Up key 1 now s)) = (0 < n) \<and>
         (\<exists>e. snd (DistributedThrottler_isAllowed rnd cfg Up key 1 now s) (th_prefix_of cfg, key) =
                 Some (of_nat (n - 1), now, e))"
    using r B big W i Suc.prems by (rule same_time_step)
  then obtain e where s1: "?s1 (th_prefix_of cfg, key) = Some (of_nat (n - 1), now, e)" by blast
  have n1: "n - 1 \<le> B" using Suc.prems(1) by simp
  have st1: "(?s1 (th_prefix_of cfg, key) = None \<and> n - 1 = B) \<or>
             (\<exists>e. ?s1 (th_prefix_of cfg, key) = Some (of_nat (n - 1), now, e))"
    using s1 by blast
  have ih: "map th_allowed (fst (throttle_checks rnd cfg key (replicate m (now, 1)) ?s1)) =
       replicate (min (n - 1) m) True @ replicate (m - (n - 1)) False \<and>
     (0 < m \<longrightarrow>
        (\<exists>e. snd (throttle_checks rnd cfg key (replicate m (now, 1)) ?s1) (th_prefix_of cfg, key) =
               Some (of_nat (n - 1 - m), now, e)))"
    using n1 st1 by (rule Suc.IH)
  have unf: "throttle_checks rnd cfg key (replicate (Suc m) (now, 1)) s =
      (fst (DistributedThrottler_isAllowed rnd cfg Up key 1 now s) #
         fst (throttle_checks rnd cfg key (replicate m (now, 1)) ?s1),
       snd (throttle_checks rnd cfg key (replicate m (now, 1)) ?s1))"
    by (simp add: split_beta Let_def)
  have res: "map th_allowed (fst (throttle_checks rnd cfg key (replicate (Suc m) (now, 1)) s)) =
       replicate (min n (Suc m)) True @ replicate (Suc m - n) False"
  proof (cases "0 < n")
    case True
    then obtain k where k: "n = Suc k" by (cases n) auto
    show ?thesis unfolding unf using st ih by (simp add: k)
  next
    case False
    then show ?thesis unfolding unf using st ih by simp
  qed
  have fin: "\<exists>e. snd (throttle_checks rnd cfg key (replicate (Suc m) (now, 1)) s)
                 (th_prefix_of cfg, key) = Some (of_nat (n - Suc m), now, e)"
  proof (cases "0 < m")
    case True
    then show ?thesis unfolding unf using ih by simp
  next
    case False
    then show ?thesis unfolding unf using s1 by simp
  qed
  show ?case using res fin by blast
qed

text \<open>
  Claim C1, as stated, fails: how many calls are allowed depends on the times the
  callers read from their clocks. With a burst of \<open>B = 1\<close> refilled at one token a
  second, two calls of cost 1 that carry the times 0 and 1000 are both allowed.
\<close>

theorem more_than_B:
  "burstLimit skewed = 1 \<and>
   map th_allowed (fst (throttle_checks exact skewed ''k'' [(0, 1), (1000, 1)] Map.empty)) =
     [True, True]"
  by (simp add: skewed_check skewed_refilled skewed_quantities Let_def)

text \<open>
  Claim C1, amended. The store runs the script of a call as one step, so concurrent
  calls take effect one after another, in some order. When \<open>M\<close> calls of cost 1
  carry the same time, the bucket of the key is absent, the burst limit is a whole
  number \<open>B \<le> 2 ^ 53\<close> with \<open>B < M\<close>, and the window is a positive multiple of
  1000 ms up to \<open>2 ^ 53\<close>: in that order the first \<open>B\<close> calls are allowed and the
  other \<open>M - B\<close> are rejected, and the bucket is left at level 0 with the time of
  the calls.
\<close>

theorem exactly_B_of_M:
  assumes "rounding rnd" and "burstLimit cfg = of_nat B" and "B \<le> 2 ^ 53"
    and "0 < th_windowMs cfg" and "th_windowMs cfg mod 1000 = 0" and "th_windowMs cfg \<le> 2 ^ 53"
    and "s (th_prefix_of cfg, key) = None" and "B < M"
  shows "map th_allowed (fst (throttle_checks rnd cfg key (replicate M (now, 1)) s)) =
           replicate B True @ replicate (M - B) False \<and>
         (\<exists>e. snd (throttle_checks rnd cfg key (replicate M (now, 1)) s) (th_prefix_of cfg, key) =
                 Some (0, now, e))"
proof -
  have i: "is_integer (window_secs rnd cfg)"
    using window_secs_whole(2)[OF assms(1) assms(5) assms(4) assms(6)] .
  have st: "(s (th_prefix_of cfg, key) = None \<and> B = B) \<or>
       (\<exists>e. s (th_prefix_of cfg, key) = Some (of_nat B, now, e))"
    using assms(7) by simp
  have c: "map th_allowed (fst (throttle_checks rnd cfg key (replicate M (now, 1)) s)) =
       replicate (min B M) True @ replicate (M - B) False \<and>
     (0 < M \<longrightarrow>
        (\<exists>e. snd (throttle_checks rnd cfg key (replicate M (now, 1)) s) (th_prefix_of cfg, key) =
               Some (of_nat (B - M), now, e)))"
    using assms(1,2,3,4) i order.refl st by (rule same_time_checks)
  have "0 < M" "min B M = B" "B - M = 0" using assms(8) by simp_all
  then show ?thesis using c by simp
qed

theorem exactly_B_of_M_witness:
  "map th_allowed (fst (throttle_checks exact per_second ''k'' (replicate 12 (7, 1)) Map.empty)) =
     [True, True, True, True, True, True, True, True, True, True, False, False]"
proof -
  have h: "burstLimit per_second = of_nat 10" "(10::nat) \<le> 2 ^ 53" "0 < th_windowMs per_second"
    "th_windowMs per_second mod 1000 = 0" "th_windowMs per_second \<le> 2 ^ 53"
    "Map.empty (th_prefix_of per_second, ''k'') = None" "(10::nat) < 12"
    by (simp_all add: per_second_def)
  have "replicate 10 True @ replicate (12 - 10) False =
     [True, True, True, True, True, True, True, True, True, True, False, False]"
    by (simp add: numeral_eq_Suc)
  then show ?thesis
    using exactly_B_of_M[OF rounding_exact h, where now = 7] by simp
qed

section \<open>Properties of the sliding-window limiter\<close>

lemma ceil_secs_pos: "0 < ms \<Longrightarrow> 0 < ceil_secs ms"
proof -
  assume "0 < ms"
  then have "(- ms) div 1000 < 0" by (simp add: neg_imp_zdiv_neg_iff)
  then show ?thesis by (simp add: ceil_secs_def)
qed

lemma zset_of_upd: "zset_of (s(k \<mapsto> (z, t))) k = z"
  by (simp add: zset_of_def)

lemma zset_of_put: "zset_of (put_zset k z t s) k = z"
  by (simp add: zset_of_def put_zset_def)

lemma put_put: "z2 \<noteq> [] \<Longrightarrow> put_zset k z2 t2 (put_zset k z1 t1 s) = s(k \<mapsto> (z2, t2))"
  by (simp add: put_zset_def)

lemma purge_then_add:
  "zadd (zremrangebyscore z mx) sc m =
     (m, sc) # filter (\<lambda>e. mx < snd e \<and> fst e \<noteq> m) z"
proof -
  have "filter (\<lambda>(m', sc'). m' \<noteq> m) (filter (\<lambda>(m, sc). \<not> sc \<le> mx) z) =
        filter (\<lambda>e. mx < snd e \<and> fst e \<noteq> m) z"
    by (induction z) auto
  then show ?thesis by (simp add: zadd_def zremrangebyscore_def)
qed

lemma sliding_up:
  assumes W: "0 < windowMs cfg"
  shows "SlidingWindow_isAllowed cfg all_up alone key nonce now s =
     (let kept = filter (\<lambda>e. now - windowMs cfg < snd e \<and> fst e \<noteq> (now, nonce))
                   (zset_of s (sliding_key key));
          logged = ((now, nonce), now) # kept
      in (zcount logged (now - windowMs cfg) now \<le> maxRequests cfg,
          s(sliding_key key \<mapsto> (logged, Some (ceil_secs (windowMs cfg))))))"
proof -
  define k where "k = sliding_key key"
  define logged where "logged = ((now, nonce), now) #
      filter (\<lambda>e. now - windowMs cfg < snd e \<and> fst e \<noteq> (now, nonce)) (zset_of s k)"
  have ne: "logged \<noteq> []" by (simp add: logged_def)
  define s1 where "s1 = cmd_zremrangebyscore Up k (now - windowMs cfg) s"
  define s2 where "s2 = cmd_zadd Up k now (now, nonce) s1"
  have z2: "s2 = s(k \<mapsto> (logged, ttl_of s1 k))"
    unfolding s2_def s1_def cmd_zadd_def cmd_zremrangebyscore_def
    by (simp add: zset_of_put purge_then_add put_put logged_def)
  have cnt: "cmd_zcount Up k (now - windowMs cfg) now s2 = Some (zcount logged (now - windowMs cfg) now)"
    by (simp add: cmd_zcount_def z2 zset_of_upd)
  have pos: "zcount logged (now - windowMs cfg) now \<noteq> 0"
    using W by (simp add: zcount_def logged_def)
  have s4: "cmd_expire Up k (ceil_secs (windowMs cfg)) s2 =
      s(k \<mapsto> (logged, Some (ceil_secs (windowMs cfg))))"
    using ceil_secs_pos[OF W] by (simp add: cmd_expire_def z2)
  have "pipeline_exec all_up alone k (now - windowMs cfg) now (now, nonce)
          (ceil_secs (windowMs cfg)) s =
        (Inr (Some (zcount logged (now - windowMs cfg) now)),
         s(k \<mapsto> (logged, Some (ceil_secs (windowMs cfg)))))"
    unfolding pipeline_exec_def all_up_def alone_def
    by (simp add: Let_def s1_def[symmetric] s2_def[symmetric] cnt s4)
  then show ?thesis
    unfolding SlidingWindow_isAllowed_def Let_def k_def[symmetric] logged_def[symmetric]
    using pos by simp
qed

lemma step_log:
  assumes W: "0 < windowMs cfg"
  shows "zset_of (snd (SlidingWindow_isAllowed cfg all_up alone key nonce now s)) (sliding_key key) =
     ((now, nonce), now) #
       filter (\<lambda>e. now - windowMs cfg < snd e \<and> fst e \<noteq> (now, nonce))
         (zset_of s (sliding_key key))"
  by (simp add: sliding_up[OF W] Let_def zset_of_upd)

lemma checks_unfold:
  "snd (sliding_checks cfg key ((now, nonce) # reqs) s) =
     snd (sliding_checks cfg key reqs (snd (SlidingWindow_isAllowed cfg all_up alone key nonce now s)))"
  by (simp add: split_beta Let_def)

lemma checks_keep:
  assumes W: "0 < windowMs cfg"
  shows "\<forall>r\<in>set reqs. fst r \<le> t \<Longrightarrow> e \<in> set (zset_of s (sliding_key key)) \<Longrightarrow>
     t - windowMs cfg < snd e \<Longrightarrow> fst e \<notin> set reqs \<Longrightarrow>
     e \<in> set (zset_of (snd (sliding_checks cfg key reqs s)) (sliding_key key))"
proof (induction reqs arbitrary: s)
  case Nil
  then show ?case by simp
next
  case (Cons r reqs)
  obtain now nonce where r: "r = (now, nonce)" by (cases r)
  let ?s1 = "snd (SlidingWindow_isAllowed cfg all_up alone key nonce now s)"
  have "now \<le> t" using Cons.prems(1) r by simp
  then have "now - windowMs cfg < snd e" using Cons.prems(3) by simp
  moreover have "fst e \<noteq> (now, nonce)" using Cons.prems(4) r by auto
  ultimately have "e \<in> set (zset_of ?s1 (sliding_key key))"
    unfolding step_log[OF W] using Cons.prems(2) by simp
  moreover have "\<forall>r\<in>set reqs. fst r \<le> t" "fst e \<notin> set reqs" using Cons.prems(1,4) by simp_all
  ultimately show ?case
    unfolding r checks_unfold using Cons.IH[of ?s1] Cons.prems(3) by blast
qed

lemma checks_present:
  assumes W: "0 < windowMs cfg"
  shows "\<forall>r\<in>set reqs. t - windowMs cfg < fst r \<and> fst r \<le> t \<Longrightarrow> distinct reqs \<Longrightarrow>
     \<forall>r\<in>set reqs. (r, fst r) \<in> set (zset_of (snd (sliding_checks cfg key reqs s)) (sliding_key key))"
proof (induction reqs arbitrary: s)
  case Nil
  then show ?case by simp
next
  case (Cons r reqs)
  obtain now nonce where r: "r = (now, nonce)" by (cases r)
  let ?s1 = "snd (SlidingWindow_isAllowed cfg all_up alone key nonce now s)"
  have head: "(r, fst r) \<in> set (zset_of ?s1 (sliding_key key))"
    unfolding step_log[OF W] r by simp
  have le: "\<forall>r\<in>set reqs. fst r \<le> t" using Cons.prems(1) by simp
  have "t - windowMs cfg < snd (r, fst r)" "fst (r, fst r) \<notin> set reqs"
    using Cons.prems by simp_all
  then have "(r, fst r) \<in> set (zset_of (snd (sliding_checks cfg key reqs ?s1)) (sliding_key key))"
    using checks_keep[OF W le head] by blast
  moreover have "\<forall>r\<in>set reqs. (r, fst r) \<in>
      set (zset_of (snd (sliding_checks cfg key reqs ?s1)) (sliding_key key))"
    using Cons.IH[of ?s1] Cons.prems by simp
  ultimately show ?case unfolding r checks_unfold using r by simp
qed

lemma checks_origin:
  assumes W: "0 < windowMs cfg"
  shows "e \<in> set (zset_of (snd (sliding_checks cfg key reqs s)) (sliding_key key)) \<Longrightarrow>
     e \<in> set (zset_of s (sliding_key key)) \<or> (\<exists>r\<in>set reqs. e = (r, fst r))"
proof (induction reqs arbitrary: s)
  case Nil
  then show ?case by simp
next
  case (Cons r reqs)
  obtain now nonce where r: "r = (now, nonce)" by (cases r)
  let ?s1 = "snd (SlidingWindow_isAllowed cfg all_up alone key nonce now s)"
  have "e \<in> set (zset_of ?s1 (sliding_key key)) \<or> (\<exists>r\<in>set reqs. e = (r, fst r))"
    using Cons.IH[of ?s1] Cons.prems unfolding r checks_unfold by blast
  then show ?case unfolding step_log[OF W] r by auto
qed

lemma sliding_after_window:
  assumes W: "0 < windowMs cfg" and C: "1 \<le> maxRequests cfg"
    and old: "\<forall>e\<in>set (zset_of s (sliding_key key)). snd e \<le> t"
  shows "fst (SlidingWindow_isAllowed cfg all_up alone key nonce (t + windowMs cfg) s) = True"
proof -
  have "filter (\<lambda>e. t + windowMs cfg - windowMs cfg < snd e \<and> fst e \<noteq> (t + windowMs cfg, nonce))
          (zset_of s (sliding_key key)) = []"
    using old by (auto simp: filter_empty_conv)
  then show ?thesis
    using W C by (simp add: sliding_up[OF W] Let_def zcount_def)
qed

lemma one_per_second_check:
  "SlidingWindow_isAllowed one_per_second all_up alone key nonce now s =
     (let kept = filter (\<lambda>e. now - 1000 < snd e \<and> fst e \<noteq> (now, nonce))
                   (zset_of s (sliding_key key));
          logged = ((now, nonce), now) # kept
      in (zcount logged (now - 1000) now \<le> 1, s(sliding_key key \<mapsto> (logged, Some 1))))"
proof -
  have W: "0 < windowMs one_per_second" by (simp add: one_per_second_def)
  show ?thesis
    unfolding sliding_up[OF W] by (simp add: one_per_second_def ceil_secs_def)
qed

lemma one_per_second_fields:
  "windowMs one_per_second = 1000" "maxRequests one_per_second = 1"
  by (simp_all add: one_per_second_def)

lemma first_request:
  "snd (SlidingWindow_isAllowed one_per_second all_up alone ''k'' ''aa'' 0 Map.empty) =
     Map.empty(sliding_key ''k'' \<mapsto> ([((0, ''aa''), 0)], Some 1))"
  by (simp add: one_per_second_check Let_def zset_of_def)

text \<open>
  Claim C4, as stated, fails at the boundary of the window: the purge removes the
  entries with score at most \<open>now - W\<close>, the one exactly \<open>W\<close> old included. With
  a ceiling of 1 and a window of 1000 ms, a request at time 1000 after one at time 0 is
  allowed, although the earlier entry lies in \<open>[now - W, now]\<close>: the check as the
  claim words it counts two entries and rejects.
\<close>

theorem sliding_window_boundary:
  "fst (SlidingWindow_isAllowed one_per_second all_up alone ''k'' ''bb'' 1000
          (snd (SlidingWindow_isAllowed one_per_second all_up alone ''k'' ''aa'' 0 Map.empty))) = True \<and>
   fst (spec_sliding_check one_per_second ''k'' ''bb'' 1000
          (snd (SlidingWindow_isAllowed one_per_second all_up alone ''k'' ''aa'' 0 Map.empty))) = False"
  unfolding first_request
  by (simp add: one_per_second_check spec_sliding_check_def one_per_second_fields Let_def
      zset_of_def zcount_def zadd_def)

lemma pipeline_not_atomic:
  "fst (SlidingWindow_isAllowed one_per_second all_up
          ((\<lambda>s. s), (\<lambda>s. snd (second_caller s)), (\<lambda>s. s)) ''k'' ''aa'' 5 Map.empty) = False \<and>
   fst (second_caller
          (cmd_zadd Up (sliding_key ''k'') 5 (5, ''aa'')
             (cmd_zremrangebyscore Up (sliding_key ''k'') (5 - 1000) Map.empty))) = False \<and>
   fst (SlidingWindow_isAllowed one_per_second all_up alone ''k'' ''aa'' 5 Map.empty) = True \<and>
   fst (second_caller Map.empty) = True"
proof -
  let ?k = "sliding_key ''k''"
  let ?s2 = "cmd_zadd Up ?k 5 (5, ''aa'') (cmd_zremrangebyscore Up ?k (5 - 1000) Map.empty)"
  let ?s3 = "Map.empty(?k \<mapsto> ([((5, ''bb''), 5), ((5, ''aa''), 5)], Some (1::int)))"
  have s2: "?s2 = Map.empty(?k \<mapsto> ([((5, ''aa''), 5)], None))"
    by (simp add: cmd_zadd_def cmd_zremrangebyscore_def put_zset_def zset_of_def ttl_of_def
        zadd_def zremrangebyscore_def)
  have b: "second_caller (Map.empty(?k \<mapsto> ([((5, ''aa''), 5)], None))) = (False, ?s3)"
    unfolding second_caller_def one_per_second_check
    by (simp add: Let_def zset_of_def zcount_def)
  have s1: "cmd_zremrangebyscore Up ?k (- 995) Map.empty = Map.empty"
    by (simp add: cmd_zremrangebyscore_def put_zset_def zset_of_def zremrangebyscore_def)
  have s2': "cmd_zadd Up ?k 5 (5, ''aa'') Map.empty = Map.empty(?k \<mapsto> ([((5, ''aa''), 5)], None))"
    by (simp add: cmd_zadd_def put_zset_def zset_of_def ttl_of_def zadd_def)
  have cnt: "cmd_zcount Up ?k (- 995) 5 ?s3 = Some 2"
    by (simp add: cmd_zcount_def zset_of_def zcount_def one_per_second_fields)
  have a: "fst (SlidingWindow_isAllowed one_per_second all_up
          ((\<lambda>s. s), (\<lambda>s. snd (second_caller s)), (\<lambda>s. s)) ''k'' ''aa'' 5 Map.empty) = False"
    unfolding SlidingWindow_isAllowed_def pipeline_exec_def all_up_def Let_def
    by (simp add: s1 s2' b cnt one_per_second_fields)
  have c: "fst (SlidingWindow_isAllowed one_per_second all_up alone ''k'' ''aa'' 5 Map.empty) = True"
    by (simp add: one_per_second_check Let_def zset_of_def zcount_def)
  have d: "fst (second_caller Map.empty) = True"
    by (simp add: second_caller_def one_per_second_check Let_def zset_of_def zcount_def)
  have b': "fst (second_caller ?s2) = False" unfolding s2 b by simp
  show ?thesis using a b' c d by simp
qed

lemma count_at_least:
  assumes d: "distinct ms" and sub: "\<forall>m\<in>set ms. (m, fst m) \<in> set z"
    and win: "\<forall>m\<in>set ms. lo \<le> fst m \<and> fst m \<le> hi"
  shows "int (length ms) \<le> zcount z lo hi"
proof -
  let ?F = "filter (\<lambda>(m, sc). lo \<le> sc \<and> sc \<le> hi) z"
  have "(\<lambda>m. (m, fst m)) ` set ms \<subseteq> set ?F" using sub win by auto
  then have "card ((\<lambda>m. (m, fst m)) ` set ms) \<le> card (set ?F)"
    by (intro card_mono) simp_all
  moreover have "card ((\<lambda>m. (m, fst m)) ` set ms) = card (set ms)"
    by (intro card_image) (simp add: inj_on_def)
  moreover have "card (set ms) = length ms" using d by (rule distinct_card)
  moreover have "card (set ?F) \<le> length ?F" by (rule card_length)
  ultimately have "length ms \<le> length ?F" by linarith
  then show ?thesis by (simp add: zcount_def)
qed

text \<open>
  Claim C4, amended. With a positive window \<open>W\<close>, when the four commands of the
  pipeline all run and no command of another caller runs between them, the check
  removes the entries with score at most \<open>now - W\<close> and the entry, if any, with the
  member of the request (its time and random bytes), inserts the entry of the request,
  counts the entries with score in \<open>(now - W, now]\<close>, the new one included, and
  answers \<open>count \<le> ceiling\<close>. Consequently, whatever the log at the start: after as
  many requests as the ceiling, with members that differ from each other and from that
  of the last request, all timed in \<open>(t - W, t]\<close>, a request at \<open>t\<close> is rejected;
  and when the ceiling is at least 1 and no entry of the log at the start is later than
  \<open>t\<close>, the request issued at \<open>t + W\<close> is accepted, be it instead of the one at
  \<open>t\<close> or after it. The pipeline is not a transaction: when the whole check of a
  second caller runs between the insertion and the count of a first, both are
  rejected under a ceiling of 1, though either alone is allowed.
\<close>

theorem sliding_window_check:
  assumes W: "0 < windowMs cfg"
  shows
   "(let kept = filter (\<lambda>e. now - windowMs cfg < snd e \<and> fst e \<noteq> (now, nonce))
                  (zset_of s (sliding_key key));
         count = 1 + int (length (filter (\<lambda>e. snd e \<le> now) kept))
     in SlidingWindow_isAllowed cfg all_up alone key nonce now s =
          (count \<le> maxRequests cfg,
           s(sliding_key key \<mapsto> (((now, nonce), now) # kept, Some (ceil_secs (windowMs cfg)))))) \<and>
    (0 \<le> maxRequests cfg \<and> length reqs = nat (maxRequests cfg) \<and>
     distinct (reqs @ [(t, tag)]) \<and>
     (\<forall>r\<in>set reqs. t - windowMs cfg < fst r \<and> fst r \<le> t) \<longrightarrow>
       fst (SlidingWindow_isAllowed cfg all_up alone key tag t
              (snd (sliding_checks cfg key reqs s'))) = False \<and>
       (1 \<le> maxRequests cfg \<and> (\<forall>e\<in>set (zset_of s' (sliding_key key)). snd e \<le> t) \<longrightarrow>
          fst (SlidingWindow_isAllowed cfg all_up alone key tag (t + windowMs cfg)
                 (snd (sliding_checks cfg key reqs s'))) = True \<and>
          fst (SlidingWindow_isAllowed cfg all_up alone key tag' (t + windowMs cfg)
                 (snd (SlidingWindow_isAllowed cfg all_up alone key tag t
                         (snd (sliding_checks cfg key reqs s'))))) = True)) \<and>
    (fst (SlidingWindow_isAllowed one_per_second all_up
            ((\<lambda>s. s), (\<lambda>s. snd (second_caller s)), (\<lambda>s. s)) ''k'' ''aa'' 5 Map.empty) = False \<and>
     fst (second_caller
            (cmd_zadd Up (sliding_key ''k'') 5 (5, ''aa'')
               (cmd_zremrangebyscore Up (sliding_key ''k'') (5 - 1000) Map.empty))) = False \<and>
     fst (SlidingWindow_isAllowed one_per_second all_up alone ''k'' ''aa'' 5 Map.empty) = True \<and>
     fst (second_caller Map.empty) = True)"
proof -
  have A: "(let kept = filter (\<lambda>e. now - windowMs cfg < snd e \<and> fst e \<noteq> (now, nonce))
                  (zset_of s (sliding_key key));
         count = 1 + int (length (filter (\<lambda>e. snd e \<le> now) kept))
     in SlidingWindow_isAllowed cfg all_up alone key nonce now s =
          (count \<le> maxRequests cfg,
           s(sliding_key key \<mapsto> (((now, nonce), now) # kept, Some (ceil_secs (windowMs cfg))))))"
  proof -
    let ?kept = "filter (\<lambda>e. now - windowMs cfg < snd e \<and> fst e \<noteq> (now, nonce))
                  (zset_of s (sliding_key key))"
    have "filter (\<lambda>(m, sc). now - windowMs cfg \<le> sc \<and> sc \<le> now) ?kept =
          filter (\<lambda>e. snd e \<le> now) ?kept"
      by (rule filter_cong) auto
    then have "zcount (((now, nonce), now) # ?kept) (now - windowMs cfg) now =
          1 + int (length (filter (\<lambda>e. snd e \<le> now) ?kept))"
      using W by (simp add: zcount_def)
    then show ?thesis by (simp add: sliding_up[OF W] Let_def)
  qed
  have B: "fst (SlidingWindow_isAllowed cfg all_up alone key tag t
              (snd (sliding_checks cfg key reqs s'))) = False \<and>
       (1 \<le> maxRequests cfg \<and> (\<forall>e\<in>set (zset_of s' (sliding_key key)). snd e \<le> t) \<longrightarrow>
          fst (SlidingWindow_isAllowed cfg all_up alone key tag (t + windowMs cfg)
                 (snd (sliding_checks cfg key reqs s'))) = True \<and>
          fst (SlidingWindow_isAllowed cfg all_up alone key tag' (t + windowMs cfg)
                 (snd (SlidingWindow_isAllowed cfg all_up alone key tag t
                         (snd (sliding_checks cfg key reqs s'))))) = True)"
    if C: "0 \<le> maxRequests cfg" and len: "length reqs = nat (maxRequests cfg)"
      and dist: "distinct (reqs @ [(t, tag)])"
      and win: "\<forall>r\<in>set reqs. t - windowMs cfg < fst r \<and> fst r \<le> t"
  proof -
    let ?k = "sliding_key key"
    let ?s1 = "snd (sliding_checks cfg key reqs s')"
    let ?z1 = "zset_of ?s1 ?k"
    let ?s2 = "snd (SlidingWindow_isAllowed cfg all_up alone key tag t ?s1)"
    let ?logged = "((t, tag), t) #
        filter (\<lambda>e. t - windowMs cfg < snd e \<and> fst e \<noteq> (t, tag)) ?z1"
    have d: "distinct reqs" and notin: "(t, tag) \<notin> set reqs" using dist by auto
    have present: "\<forall>r\<in>set reqs. (r, fst r) \<in> set ?z1"
      using checks_present[OF W win d] .
    have in_logged: "\<forall>m\<in>set (reqs @ [(t, tag)]). (m, fst m) \<in> set ?logged"
    proof
      fix m assume m: "m \<in> set (reqs @ [(t, tag)])"
      show "(m, fst m) \<in> set ?logged"
      proof (cases "m = (t, tag)")
        case True
        then show ?thesis by simp
      next
        case False
        then have mr: "m \<in> set reqs" using m by simp
        then have "(m, fst m) \<in> set ?z1" "t - windowMs cfg < fst m"
          using present win by blast+
        then show ?thesis using False by simp
      qed
    qed
    have in_win: "\<forall>m\<in>set (reqs @ [(t, tag)]). t - windowMs cfg \<le> fst m \<and> fst m \<le> t"
      using win W by auto
    have "int (length (reqs @ [(t, tag)])) \<le> zcount ?logged (t - windowMs cfg) t"
      using dist in_logged in_win by (rule count_at_least)
    then have over: "maxRequests cfg < zcount ?logged (t - windowMs cfg) t"
      using len C by simp
    have rejected: "fst (SlidingWindow_isAllowed cfg all_up alone key tag t ?s1) = False"
      using over by (simp add: sliding_up[OF W] Let_def)
    have accepted: "fst (SlidingWindow_isAllowed cfg all_up alone key tag (t + windowMs cfg) ?s1) = True \<and>
          fst (SlidingWindow_isAllowed cfg all_up alone key tag' (t + windowMs cfg) ?s2) = True"
      if one: "1 \<le> maxRequests cfg" and old: "\<forall>e\<in>set (zset_of s' ?k). snd e \<le> t"
    proof -
      have old1: "\<forall>e\<in>set ?z1. snd e \<le> t"
      proof
        fix e assume "e \<in> set ?z1"
        then have "e \<in> set (zset_of s' ?k) \<or> (\<exists>r\<in>set reqs. e = (r, fst r))"
          by (rule checks_origin[OF W])
        then show "snd e \<le> t" using old win by auto
      qed
      have "zset_of ?s2 ?k = ?logged" by (rule step_log[OF W])
      then have old2: "\<forall>e\<in>set (zset_of ?s2 ?k). snd e \<le> t" using old1 by auto
      show ?thesis
        using sliding_after_window[OF W one old1] sliding_after_window[OF W one old2] by simp
    qed
    show ?thesis using rejected accepted by blast
  qed
  show ?thesis using A B pipeline_not_atomic by blast
qed

theorem sliding_window_check_witness:
  "fst (SlidingWindow_isAllowed two_per_second all_up alone ''k'' ''cc'' 900
         (snd (sliding_checks two_per_second ''k'' [(100, ''aa''), (500, ''bb'')]
            (Map.empty(sliding_key ''k'' \<mapsto> ([((50, ''zz''), 50)], None)))))) = False \<and>
   fst (SlidingWindow_isAllowed two_per_second all_up alone ''k'' ''cc'' 1900
         (snd (sliding_checks two_per_second ''k'' [(100, ''aa''), (500, ''bb'')]
            (Map.empty(sliding_key ''k'' \<mapsto> ([((50, ''zz''), 50)], None)))))) = True \<and>
   fst (SlidingWindow_isAllowed two_per_second all_up alone ''k'' ''dd'' 1900
         (snd (SlidingWindow_isAllowed two_per_second all_up alone ''k'' ''cc'' 900
           (snd (sliding_checks two_per_second ''k'' [(100, ''aa''), (500, ''bb'')]
              (Map.empty(sliding_key ''k'' \<mapsto> ([((50, ''zz''), 50)], None)))))))) = True"
proof -
  let ?s0 = "Map.empty(sliding_key ''k'' \<mapsto> ([((50::int, ''zz''), 50::int)], None :: int option))"
  have h: "0 < windowMs two_per_second" by (simp add: two_per_second_def)
  have pre: "0 \<le> maxRequests two_per_second \<and>
     length [(100::int, ''aa''), (500, ''bb'')] = nat (maxRequests two_per_second) \<and>
     distinct ([(100::int, ''aa''), (500, ''bb'')] @ [(900, ''cc'')]) \<and>
     (\<forall>r\<in>set [(100::int, ''aa''), (500, ''bb'')].
        900 - windowMs two_per_second < fst r \<and> fst r \<le> 900)"
    by (simp add: two_per_second_def)
  have one: "1 \<le> maxRequests two_per_second \<and>
     (\<forall>e\<in>set (zset_of ?s0 (sliding_key ''k'')). snd e \<le> 900)"
    by (simp add: two_per_second_def zset_of_def)
  have w: "900 + windowMs two_per_second = 1900" by (simp add: two_per_second_def)
  show ?thesis
    using sliding_window_check[OF h, where s' = ?s0 and key = "''k''"
        and reqs = "[(100, ''aa''), (500, ''bb'')]" and t = 900 and tag = "''cc''" and tag' = "''dd''"]
      pre one
    unfolding w by blast
qed

section \<open>Properties of failure handling\<close>

text \<open>
  Claim C5, as stated, fails for the sliding-window limiter:
  \<^verbatim>\<open>exec()\<close> resolves also when its commands failed, with an error in the
  place of each answer; the count is then read as 0 and compared with the ceiling.
  Under a ceiling of -1 a check whose four commands all fail is rejected.
\<close>

theorem sliding_fails_closed:
  "fst (SlidingWindow_isAllowed negative_ceiling (ExecResolves Down Down Down Down) alone
          ''k'' ''aa'' 0 Map.empty) = False"
  by (simp add: SlidingWindow_isAllowed_def pipeline_exec_def alone_def cmd_zcount_def
      negative_ceiling_def Let_def)

text \<open>
  Claim C5, amended. Fixed window: when the increment fails, or (positive window) the
  expiry set on a fresh counter fails, the check answers \<open>allowed = True\<close> with
  \<open>remaining = maxRequests\<close> and \<open>resetAt = now + windowMs\<close>. Throttler: when
  the store is not reached the check answers \<open>allowed = True\<close> with
  \<open>tokensRemaining = burstLimit\<close> and leaves the store as it is; it gives the same
  answer when the script aborts because the window is not a whole number of seconds.
  Sliding window: when \<^verbatim>\<open>exec()\<close> rejects, the answer is \<open>True\<close> and
  the store is as it was; when it resolves and the count command has failed, the answer
  is \<open>0 \<le> maxRequests\<close>, which is \<open>True\<close> exactly when the ceiling is not
  negative. In each case the check returns a decision and raises nothing.
\<close>

theorem fail_open:
  "RateLimiter_isAllowed cfg (Down, l) key w now s =
      (\<lparr> allowed = True, remaining = maxRequests cfg, resetAt = now + windowMs cfg,
         retryAfter = None \<rparr>, s) \<and>
   (0 < windowMs cfg \<and> count_of s (prefix_of cfg, key, now div windowMs cfg) = 0 \<longrightarrow>
      fst (RateLimiter_isAllowed cfg (Up, Down) key w now s) =
        \<lparr> allowed = True, remaining = maxRequests cfg, resetAt = now + windowMs cfg,
          retryAfter = None \<rparr>) \<and>
   DistributedThrottler_isAllowed rnd tcfg Down tkey cost tnow b =
      (\<lparr> th_allowed = True, tokensRemaining = burstLimit tcfg, th_retryAfter = None \<rparr>, b) \<and>
   (\<not> is_integer (window_secs rnd tcfg) \<longrightarrow>
      fst (DistributedThrottler_isAllowed rnd tcfg Up tkey cost tnow b) =
        \<lparr> th_allowed = True, tokensRemaining = burstLimit tcfg, th_retryAfter = None \<rparr>) \<and>
   SlidingWindow_isAllowed scfg ExecRejects between skey nonce snow z = (True, z) \<and>
   fst (SlidingWindow_isAllowed scfg (ExecResolves la lb Down ld) between skey nonce snow z) =
      (0 \<le> maxRequests scfg)"
proof -
  have a: "RateLimiter_isAllowed cfg (Down, l) key w now s =
      (\<lparr> allowed = True, remaining = maxRequests cfg, resetAt = now + windowMs cfg,
         retryAfter = None \<rparr>, s)"
    by (simp add: RateLimiter_isAllowed_def incrby_def Let_def)
  have b: "count_of s (prefix_of cfg, key, now div windowMs cfg) = 0 \<Longrightarrow>
      fst (RateLimiter_isAllowed cfg (Up, Down) key w now s) =
        \<lparr> allowed = True, remaining = maxRequests cfg, resetAt = now + windowMs cfg,
          retryAfter = None \<rparr>"
    by (auto simp: RateLimiter_isAllowed_def incrby_def expire_def count_of_def Let_def
        split: option.splits)
  have c: "\<not> is_integer (window_secs rnd tcfg) \<Longrightarrow>
      fst (DistributedThrottler_isAllowed rnd tcfg Up tkey cost tnow b) =
        \<lparr> th_allowed = True, tokensRemaining = burstLimit tcfg, th_retryAfter = None \<rparr>"
    by (simp add: throttler_aborted)
  have d: "SlidingWindow_isAllowed scfg ExecRejects between skey nonce snow z = (True, z)"
    by (simp add: SlidingWindow_isAllowed_def pipeline_exec_def Let_def)
  have e: "fst (SlidingWindow_isAllowed scfg (ExecResolves la lb Down ld) between skey nonce snow z) =
      (0 \<le> maxRequests scfg)"
    by (cases between)
      (simp add: SlidingWindow_isAllowed_def pipeline_exec_def cmd_zcount_def Let_def)
  show ?thesis using a b c d e throttler_down by blast
qed

theorem fail_open_witness:
  "RateLimiter_isAllowed policy5 (Down, Up) ''k'' 1 60000 Map.empty =
      (\<lparr> allowed = True, remaining = 5, resetAt = 120000, retryAfter = None \<rparr>, Map.empty) \<and>
   fst (RateLimiter_isAllowed policy5 (Up, Down) ''k'' 1 60000 Map.empty) =
      \<lparr> allowed = True, remaining = 5, resetAt = 120000, retryAfter = None \<rparr> \<and>
   DistributedThrottler_isAllowed exact per_second Down ''k'' 6 30000 drained =
      (\<lparr> th_allowed = True, tokensRemaining = 10, th_retryAfter = None \<rparr>, drained) \<and>
   fst (DistributedThrottler_isAllowed exact fractional_window Up ''k'' 1 0 Map.empty) =
      \<lparr> th_allowed = True, tokensRemaining = 10, th_retryAfter = None \<rparr> \<and>
   SlidingWindow_isAllowed policy5 ExecRejects alone ''k'' ''a1b2c3d4'' 60000 Map.empty =
      (True, Map.empty) \<and>
   fst (SlidingWindow_isAllowed policy5 (ExecResolves Up Up Down Up) alone ''k'' ''a1b2c3d4''
          60000 Map.empty) = True"
proof -
  have h1: "0 < windowMs policy5 \<and>
      count_of Map.empty (prefix_of policy5, ''k'', 60000 div windowMs policy5) = 0"
    by (simp add: policy5_def count_of_def)
  have h2: "\<not> is_integer (window_secs exact fractional_window)"
  proof -
    have "\<lfloor>3 / 2 :: rat\<rfloor> = 1" by (rule floor_unique) simp_all
    then show ?thesis
      by (simp add: is_integer_def window_secs_def exact_def fractional_window_def)
  qed
  show ?thesis
    using fail_open[where cfg = policy5 and l = Up and key = "''k''" and w = 1 and now = 60000
        and s = Map.empty and rnd = exact and tcfg = fractional_window and tkey = "''k''"
        and cost = 1 and tnow = 0 and b = Map.empty and scfg = policy5 and between = alone
        and skey = "''k''" and nonce = "''a1b2c3d4''" and snow = 60000 and z = Map.empty
        and la = Up and lb = Up and ld = Up]
      fail_open[where rnd = exact and tcfg = per_second and tkey = "''k''" and cost = 6
        and tnow = 30000 and b = drained and cfg = policy5 and l = Up and key = "''k''" and w = 1
        and now = 60000 and s = Map.empty]
      h1 h2
    by (simp add: policy5_def per_second_def fractional_window_def)
qed

section \<open>Properties of the adaptive limiter\<close>

lemma profiles5_bad: "performanceMetrics profiles5 ''bad'' = Some bad_profile"
  by (simp add: profiles5_def recordMetric_def AdaptiveRateLimiter_new_def bad_profile_def Let_def)

lemma profiles5_good: "performanceMetrics profiles5 ''good'' = Some good_profile"
  by (simp add: profiles5_def recordMetric_def AdaptiveRateLimiter_new_def good_profile_def Let_def)

lemma profiles5_base: "maxRequests (baseConfig profiles5) = 5"
  by (simp add: profiles5_def recordMetric_def AdaptiveRateLimiter_new_def base5_def Let_def)

lemma limit_bad: "getDynamicLimit profiles5 ''bad'' = 2"
proof -
  have "\<lfloor>5 / 2 :: rat\<rfloor> = 2" by (simp add: floor_divide_of_int_eq [of 5 2, simplified])
  then show ?thesis
  by (simp add: getDynamicLimit_def profiles5_bad profiles5_base bad_profile_def js_div_def Let_def)
qed

lemma limit_good: "getDynamicLimit profiles5 ''good'' = 7"
proof -
  have "\<lfloor>15 / 2 :: rat\<rfloor> = 7" by (simp add: floor_divide_of_int_eq [of 15 2, simplified])
  then show ?thesis
  by (simp add: getDynamicLimit_def profiles5_good profiles5_base good_profile_def js_div_def Let_def)
qed

text \<open>
  Claim C6, as stated, fails: the limit is rounded down after scaling and is not
  clamped to any range (the configuration has no minimum or maximum). With base 5 the
  failing caller gets 2, not 2.5, and the well-behaved caller gets 7, not 7.5; no range
  \<open>[lo, hi]\<close> makes the worded ceiling agree with both.
\<close>

theorem dynamic_limit_not_clamped:
  "\<not> (\<exists>lo hi.
        of_int (getDynamicLimit profiles5 ''bad'') = spec_dynamic_ceiling lo hi 5 bad_profile \<and>
        of_int (getDynamicLimit profiles5 ''good'') = spec_dynamic_ceiling lo hi 5 good_profile)"
proof
  assume "\<exists>lo hi.
        of_int (getDynamicLimit profiles5 ''bad'') = spec_dynamic_ceiling lo hi 5 bad_profile \<and>
        of_int (getDynamicLimit profiles5 ''good'') = spec_dynamic_ceiling lo hi 5 good_profile"
  then obtain lo hi :: rat where
    bad: "2 = max lo (min hi (5 / 2))" and good: "7 = max lo (min hi (15 / 2))"
    by (auto simp: limit_bad limit_good spec_dynamic_ceiling_def bad_profile_def good_profile_def)
  from bad good show False
    by (auto simp: max_def min_def split: if_splits)
qed

text \<open>
  Claim C6, amended. For a key with a recorded profile (so \<open>total \<noteq> 0\<close>), with
  \<open>errorRate = errors / total\<close> and \<open>avgResponseTime = totalResponseTime / total\<close>,
  the dynamic limit is the base ceiling scaled and rounded down: above 10% errors
  \<open>\<lfloor>base * 0.5\<rfloor>\<close>, which is at most half of the base; in \<open>(5%, 10%]\<close>
  \<open>\<lfloor>base * 0.75\<rfloor>\<close>; below 1% errors with an average response time below 100 ms
  \<open>\<lfloor>base * 1.5\<rfloor>\<close>; otherwise the base itself. Nothing is clamped.
\<close>

theorem dynamic_limit_rules:
  assumes m: "performanceMetrics a key = Some m" and t: "total m \<noteq> 0"
  shows
   "(let errorRate = (of_int (errors m) / of_int (total m) :: rat);
         avgResponseTime = totalResponseTime m / of_int (total m);
         base = maxRequests (baseConfig a)
     in (errorRate > 1 / 10 \<longrightarrow>
           getDynamicLimit a key = \<lfloor>of_int base * (1 / 2 :: rat)\<rfloor> \<and>
           (of_int (getDynamicLimit a key) :: rat) \<le> of_int base / 2) \<and>
        (1 / 20 < errorRate \<and> errorRate \<le> 1 / 10 \<longrightarrow>
           getDynamicLimit a key = \<lfloor>of_int base * (3 / 4 :: rat)\<rfloor>) \<and>
        (errorRate < 1 / 100 \<and> avgResponseTime < 100 \<longrightarrow>
           getDynamicLimit a key = \<lfloor>of_int base * (3 / 2 :: rat)\<rfloor>) \<and>
        (errorRate \<le> 1 / 20 \<and> \<not> (errorRate < 1 / 100 \<and> avgResponseTime < 100) \<longrightarrow>
           getDynamicLimit a key = base))"
proof -
  define e :: rat where "e = of_int (errors m) / of_int (total m)"
  define av :: rat where "av = totalResponseTime m / of_int (total m)"
  define base where "base = maxRequests (baseConfig a)"
  have nz: "(of_int (total m) :: rat) \<noteq> 0" using t by simp
  have eq: "getDynamicLimit a key =
      (if e < 1 / 100 \<and> av < 100
       then \<lfloor>of_int (if e > 1 / 10 then \<lfloor>of_int base * (1 / 2 :: rat)\<rfloor>
                       else if e > 1 / 20 then \<lfloor>of_int base * (3 / 4 :: rat)\<rfloor>
                       else base) * (3 / 2 :: rat)\<rfloor>
       else (if e > 1 / 10 then \<lfloor>of_int base * (1 / 2 :: rat)\<rfloor>
             else if e > 1 / 20 then \<lfloor>of_int base * (3 / 4 :: rat)\<rfloor>
             else base))"
    unfolding getDynamicLimit_def m js_div_def Let_def e_def av_def base_def
    by (simp only: option.case nz simp_thms if_True if_False js_gt.simps js_lt.simps)
  have half: "(of_int \<lfloor>of_int base * (1 / 2 :: rat)\<rfloor> :: rat) \<le> of_int base / 2"
    using of_int_floor_le[of "of_int base * (1 / 2 :: rat)"] by simp
  have c1: "getDynamicLimit a key = \<lfloor>of_int base * (1 / 2 :: rat)\<rfloor> \<and>
           (of_int (getDynamicLimit a key) :: rat) \<le> of_int base / 2" if "e > 1 / 10"
  proof -
    have "\<not> e < 1 / 100" using that by linarith
    then have "getDynamicLimit a key = \<lfloor>of_int base * (1 / 2 :: rat)\<rfloor>"
      unfolding eq using that by (simp only: simp_thms if_False if_True)
    then show ?thesis using half by simp
  qed
  have c2: "getDynamicLimit a key = \<lfloor>of_int base * (3 / 4 :: rat)\<rfloor>"
    if "1 / 20 < e \<and> e \<le> 1 / 10"
  proof -
    have "\<not> e < 1 / 100" "\<not> e > 1 / 10" "e > 1 / 20" using that by linarith+
    then show ?thesis unfolding eq by (simp only: simp_thms if_False if_True)
  qed
  have c3: "getDynamicLimit a key = \<lfloor>of_int base * (3 / 2 :: rat)\<rfloor>"
    if "e < 1 / 100 \<and> av < 100"
  proof -
    have "\<not> e > 1 / 10" "\<not> e > 1 / 20" using that by linarith+
    then show ?thesis unfolding eq using that by (simp only: simp_thms if_False if_True)
  qed
  have c4: "getDynamicLimit a key = base"
    if "e \<le> 1 / 20 \<and> \<not> (e < 1 / 100 \<and> av < 100)"
  proof -
    have "\<not> e > 1 / 10" "\<not> e > 1 / 20" using that by linarith+
    then show ?thesis unfolding eq using that by (simp only: simp_thms if_False if_True)
  qed
  show ?thesis
    unfolding Let_def e_def[symmetric] av_def[symmetric] base_def[symmetric]
    using c1 c2 c3 c4 by blast
qed

theorem dynamic_limit_rules_witness:
  "getDynamicLimit profiles5 ''bad'' = 2 \<and> getDynamicLimit profiles5 ''good'' = 7 \<and>
   (of_int (getDynamicLimit profiles5 ''bad'') :: rat) \<le> 5 / 2"
proof -
  have t: "total bad_profile \<noteq> 0" by (simp add: bad_profile_def)
  have t': "total good_profile \<noteq> 0" by (simp add: good_profile_def)
  have f1: "\<lfloor>5 / 2 :: rat\<rfloor> = 2" by (simp add: floor_divide_of_int_eq [of 5 2, simplified])
  have f2: "\<lfloor>15 / 2 :: rat\<rfloor> = 7" by (simp add: floor_divide_of_int_eq [of 15 2, simplified])
  have "getDynamicLimit profiles5 ''bad'' = 2 \<and>
        (of_int (getDynamicLimit profiles5 ''bad'') :: rat) \<le> 5 / 2"
    using dynamic_limit_rules[OF profiles5_bad t] f1
    by (simp add: Let_def bad_profile_def profiles5_base)
  moreover have "getDynamicLimit profiles5 ''good'' = 7"
    using dynamic_limit_rules[OF profiles5_good t'] f2
    by (simp add: Let_def good_profile_def profiles5_base)
  ultimately show ?thesis by simp
qed

text \<open>
  Claim C10. A key without recorded metrics gets exactly the base ceiling: on a new
  limiter, on any limiter that holds no profile of the key, and after the timer has
  deleted a profile untouched for more than an hour.
\<close>

theorem new_caller_base_limit:
  "getDynamicLimit (AdaptiveRateLimiter_new base) key = maxRequests base \<and>
   (performanceMetrics a key = None \<longrightarrow> getDynamicLimit a key = maxRequests (baseConfig a)) \<and>
   (performanceMetrics a key = Some m \<and> now - lastUpdate m > 3600000 \<longrightarrow>
      getDynamicLimit (clean_old_metrics now a) key = maxRequests (baseConfig a))"
  by (simp add: getDynamicLimit_def AdaptiveRateLimiter_new_def clean_old_metrics_def)

theorem new_caller_base_limit_witness:
  "getDynamicLimit profiles5 ''new'' = 5 \<and>
   getDynamicLimit (clean_old_metrics 3600001 profiles5) ''bad'' = 5"
proof -
  have none: "performanceMetrics profiles5 ''new'' = None"
    by (simp add: profiles5_def recordMetric_def AdaptiveRateLimiter_new_def Let_def)
  have stale: "performanceMetrics profiles5 ''bad'' = Some bad_profile \<and>
       3600001 - lastUpdate bad_profile > 3600000"
    by (simp add: profiles5_bad bad_profile_def)
  show ?thesis
    using new_caller_base_limit[where a = profiles5 and key = "''new''"]
      new_caller_base_limit[where a = profiles5 and key = "''bad''" and m = bad_profile
        and now = 3600001]
      none stale
    by (simp add: profiles5_base)
qed

section \<open>Properties of construction\<close>

text \<open>
  Claim C9, as stated, fails: the constructors check nothing, and a zero window shows
  at request time. A fixed-window limiter with a zero window and a negative ceiling,
  and a throttler with a negative burst, a zero rate and a zero window, are constructed
  like any other; a request through the middleware of that limiter ends in a
  \<^verbatim>\<open>RangeError\<close>.
\<close>

theorem misconfigured_policy_accepted:
  "RateLimiter_new misconfigured = Inr zero_window \<and>
   DistributedThrottler_new misconfigured_throttle =
     Inr \<lparr> burstLimit = - 1, sustainedLimit = 0, th_windowMs = 0,
           th_keyPrefix = Some ''throttle'' \<rparr> \<and>
   middleware_served zero_window False ''k'' 1 60000 Map.empty = Inl RangeError"
  by (simp add: RateLimiter_new_def DistributedThrottler_new_def misconfigured_def
      misconfigured_throttle_def zero_window_def spread_def middleware_served_def)

lemma middleware_reset:
  assumes "middleware cfg (Up, Up) False key weight now s = (a, s1)"
  shows "a \<noteq> Skipped \<and>
    (\<forall>r. a = Rejected r \<longrightarrow> resetAt r = (now div windowMs cfg + 1) * windowMs cfg) \<and>
    (\<forall>r wr. a = Forwarded r wr \<longrightarrow> resetAt r = (now div windowMs cfg + 1) * windowMs cfg)"
  using assms
  by (auto simp: middleware_def RateLimiter_isAllowed_def incrby_def expire_def Let_def
      split: option.splits if_splits prod.splits)

text \<open>
  Claim C9, amended. Constructing a fixed-window limiter or a throttler succeeds for
  every configuration object. The window length, the ceiling, the burst and the
  sustained limit are kept as given, whatever their sign; an optional field takes its
  default only when the object does not have the property, and a property that is
  present with the value \<^verbatim>\<open>undefined\<close> leaves the field undefined. At
  request time, with the store reachable and a request that is not skipped, the
  middleware of a limiter with a zero window ends in a \<^verbatim>\<open>RangeError\<close>;
  with a positive window \<open>W\<close> it ends in that error exactly when the reset time
  \<open>(now div W + 1) * W\<close> is beyond the range of \<^verbatim>\<open>Date\<close>, and
  otherwise answers as the check decides.
\<close>

theorem construction_never_fails:
  "RateLimiter_new config =
     Inr \<lparr> windowMs = o_windowMs config, maxRequests = o_maxRequests config,
           keyPrefix =
             (case o_keyPrefix config of
                Absent \<Rightarrow> Some ''rate-limit'' | Undefined \<Rightarrow> None | Given p \<Rightarrow> Some p),
           skipSuccessfulRequests =
             (case o_skipSuccessfulRequests config of
                Absent \<Rightarrow> Some False | Undefined \<Rightarrow> None | Given v \<Rightarrow> Some v),
           skipFailedRequests =
             (case o_skipFailedRequests config of
                Absent \<Rightarrow> Some False | Undefined \<Rightarrow> None | Given v \<Rightarrow> Some v) \<rparr> \<and>
   DistributedThrottler_new tconfig =
     Inr \<lparr> burstLimit = o_burstLimit tconfig, sustainedLimit = o_sustainedLimit tconfig,
           th_windowMs = o_th_windowMs tconfig,
           th_keyPrefix =
             (case o_th_keyPrefix tconfig of
                Absent \<Rightarrow> Some ''throttle'' | Undefined \<Rightarrow> None | Given p \<Rightarrow> Some p) \<rparr> \<and>
   (windowMs cfg = 0 \<longrightarrow> middleware_served cfg False key weight now s = Inl RangeError) \<and>
   (0 < windowMs cfg \<longrightarrow>
      middleware_served cfg False key weight now s =
        (if date_in_range ((now div windowMs cfg + 1) * windowMs cfg)
         then Inr (middleware cfg (Up, Up) False key weight now s)
         else Inl RangeError))"
proof -
  have a: "RateLimiter_new config =
     Inr \<lparr> windowMs = o_windowMs config, maxRequests = o_maxRequests config,
           keyPrefix =
             (case o_keyPrefix config of
                Absent \<Rightarrow> Some ''rate-limit'' | Undefined \<Rightarrow> None | Given p \<Rightarrow> Some p),
           skipSuccessfulRequests =
             (case o_skipSuccessfulRequests config of
                Absent \<Rightarrow> Some False | Undefined \<Rightarrow> None | Given v \<Rightarrow> Some v),
           skipFailedRequests =
             (case o_skipFailedRequests config of
                Absent \<Rightarrow> Some False | Undefined \<Rightarrow> None | Given v \<Rightarrow> Some v) \<rparr>"
    by (simp add: RateLimiter_new_def spread_def)
  have b: "DistributedThrottler_new tconfig =
     Inr \<lparr> burstLimit = o_burstLimit tconfig, sustainedLimit = o_sustainedLimit tconfig,
           th_windowMs = o_th_windowMs tconfig,
           th_keyPrefix =
             (case o_th_keyPrefix tconfig of
                Absent \<Rightarrow> Some ''throttle'' | Undefined \<Rightarrow> None | Given p \<Rightarrow> Some p) \<rparr>"
    by (simp add: DistributedThrottler_new_def spread_def)
  have c: "windowMs cfg = 0 \<Longrightarrow> middleware_served cfg False key weight now s = Inl RangeError"
    by (simp add: middleware_served_def)
  have d: "middleware_served cfg False key weight now s =
        (if date_in_range ((now div windowMs cfg + 1) * windowMs cfg)
         then Inr (middleware cfg (Up, Up) False key weight now s)
         else Inl RangeError)" if nz: "0 < windowMs cfg"
  proof -
    obtain a s1 where m: "middleware cfg (Up, Up) False key weight now s = (a, s1)"
      by (cases "middleware cfg (Up, Up) False key weight now s")
    show ?thesis
      using middleware_reset[OF m] nz
      by (cases a) (simp_all add: middleware_served_def m)
  qed
  show ?thesis using a b c d by blast
qed

theorem construction_never_fails_witness:
  "RateLimiter_new undefined_prefix =
     Inr \<lparr> windowMs = 60000, maxRequests = 5, keyPrefix = None,
           skipSuccessfulRequests = Some True, skipFailedRequests = Some False \<rparr> \<and>
   middleware_served zero_window False ''k'' 1 60000 Map.empty = Inl RangeError \<and>
   middleware_served policy5 False ''k'' 1 60000 Map.empty =
     Inr (Forwarded \<lparr> allowed = True, remaining = 4, resetAt = 120000, retryAfter = None \<rparr> False,
          Map.empty((''api'', ''k'', 1) \<mapsto> (1, Some 60)))"
proof -
  have z: "windowMs zero_window = 0" by (simp add: zero_window_def)
  have p: "0 < windowMs policy5" by (simp add: policy5_def)
  have m: "middleware policy5 (Up, Up) False ''k'' 1 60000 Map.empty =
     (Forwarded \<lparr> allowed = True, remaining = 4, resetAt = 120000, retryAfter = None \<rparr> False,
          Map.empty((''api'', ''k'', 1) \<mapsto> (1, Some 60)))"
    by (simp add: middleware_def RateLimiter_isAllowed_def incrby_def expire_def Let_def
        policy5_def prefix_of_def flag_def ceil_secs_def)
  have r: "RateLimiter_new undefined_prefix =
     Inr \<lparr> windowMs = 60000, maxRequests = 5, keyPrefix = None,
           skipSuccessfulRequests = Some True, skipFailedRequests = Some False \<rparr>"
    using construction_never_fails[where config = undefined_prefix and cfg = policy5]
    by (simp add: undefined_prefix_def)
  show ?thesis
    using construction_never_fails[where cfg = zero_window and key = "''k''" and weight = 1
        and now = 60000 and s = Map.empty]
      construction_never_fails[where cfg = policy5 and key = "''k''" and weight = 1
        and now = 60000 and s = Map.empty]
      z p m r
    by (simp add: policy5_def date_in_range_def)
qed

section \<open>Properties of the refund\<close>

text \<open>
  When the response ends in the window that admitted the request and a refund is due,
  every counter is back at the count it had before the request.
\<close>

lemma refund_same_window:
  assumes "now div windowMs cfg = endTime div windowMs cfg"
    and "(statusCode < 400 \<and> flag (skipSuccessfulRequests cfg)) \<or>
         (statusCode \<ge> 400 \<and> flag (skipFailedRequests cfg))"
    and "allowed (fst (RateLimiter_isAllowed cfg (Up, Up) key weight now s))"
  shows "count_of (snd (handle_request cfg key weight now statusCode endTime s)) k = count_of s k"
proof -
  obtain r s1 where r: "RateLimiter_isAllowed cfg (Up, Up) key weight now s = (r, s1)"
    by (cases "RateLimiter_isAllowed cfg (Up, Up) key weight now s")
  have c1: "count_of s1 k' =
     (if k' = (prefix_of cfg, key, now div windowMs cfg) then count_of s k' + weight else count_of s k')" for k'
    using isAllowed_up_count[of cfg key weight now s k'] r by simp
  have "count_of (res_end cfg Up key weight statusCode endTime s1) k =
     (if k = (prefix_of cfg, key, endTime div windowMs cfg) then count_of s1 k - weight else count_of s1 k)"
    using assms(2) by (auto simp: res_end_def decrby_def count_of_def split: option.splits)
  moreover have "handle_request cfg key weight now statusCode endTime s =
      (Forwarded r True, res_end cfg Up key weight statusCode endTime s1)"
    using assms(2,3) r by (auto simp: handle_request_def middleware_def)
  ultimately show ?thesis using c1 assms(1) by simp
qed

text \<open>
  Claim C8 at a request that spans a window boundary. The authentication policy refunds
  successful requests. A request admitted at 59999 (window 0) and answered with status
  200 at 60001 (window 1) leaves the counter of window 0 at 1 and creates the counter
  of window 1 at -1, without expiry: the refund is not a no-op. In window 1 six
  requests of weight 1 are then allowed under a ceiling of 5.
\<close>

theorem refund_after_window_hits_next_window:
  "snd (handle_request auth_policy ''k'' 1 59999 200 60001 Map.empty) (''auth'', ''k'', 0) =
      Some (1, Some 60) \<and>
   snd (handle_request auth_policy ''k'' 1 59999 200 60001 Map.empty) (''auth'', ''k'', 1) =
      Some (- 1, None) \<and>
   map allowed (fst (checks auth_policy ''k''
       [(60002, 1), (60003, 1), (60004, 1), (60005, 1), (60006, 1), (60007, 1)]
       (snd (handle_request auth_policy ''k'' 1 59999 200 60001 Map.empty)))) =
      [True, True, True, True, True, True]"
  by (simp add: handle_request_def middleware_def res_end_def RateLimiter_isAllowed_def
      incrby_def decrby_def expire_def auth_policy_def prefix_of_def flag_def ceil_secs_def Let_def)

end
